theory Spec2Isabelle
  imports Main "HOL-Library.Word"
begin

unbundle bit_operations_syntax

section \<open>CMAC (RFC 4493, NIST SP 800-38B) over an injected block cipher\<close>

subsection \<open>Bytes, panics, errors and the block cipher capability\<close>

type_synonym byte = "8 word"

type_synonym bytes = "byte list"

text \<open>
  A Go run-time panic is a value of the left summand of every result: an index or slice
  bound out of range, an integer division by zero, an explicit \<^verbatim>\<open>panic("...")\<close>, or
  whatever the cipher's own code raises.
\<close>

datatype panic = IndexOutOfRange | DivideByZero | PanicMsg string | CipherPanic

text \<open>
  A Go \<^verbatim>\<open>error\<close> value: \<^verbatim>\<open>errors.New(msg)\<close>, or the key size error that
  \<^verbatim>\<open>aes.NewCipher\<close> reports.
\<close>

datatype go_error = ErrorString string | KeySizeError nat

text \<open>
  \<^verbatim>\<open>cipher.Block\<close>: a block size and the encryption of one block. The destination
  slices the package hands to \<^verbatim>\<open>Encrypt\<close> all have the block size, so the call
  \<^verbatim>\<open>c.Encrypt(dst, src)\<close> is the assignment of the returned block to \<^verbatim>\<open>dst\<close>.
  The call may panic, as the standard ciphers do on a short input.
\<close>

record cipher_Block =
  BlockSize :: nat
  Encrypt :: "bytes \<Rightarrow> panic + bytes"

text \<open>
  A well-formed cipher maps every block to a block. \<open>encrypt c\<close> is the block function it
  computes there.
\<close>

definition cipher_wf :: "cipher_Block \<Rightarrow> bool" where
  "cipher_wf c \<longleftrightarrow>
     (\<forall>b. length b = BlockSize c \<longrightarrow> (\<exists>out. Encrypt c b = Inr out \<and> length out = BlockSize c))"

definition encrypt :: "cipher_Block \<Rightarrow> bytes \<Rightarrow> bytes" where
  "encrypt c b = (case Encrypt c b of Inr out \<Rightarrow> out | Inl e \<Rightarrow> [])"

definition zeros :: "nat \<Rightarrow> bytes" where
  "zeros n = replicate n 0"

text \<open>Go's \<^verbatim>\<open>copy(dst, src)\<close>: the new \<^verbatim>\<open>dst\<close> and the number of bytes copied.\<close>

definition copy_go :: "bytes \<Rightarrow> bytes \<Rightarrow> bytes \<times> nat" where
  "copy_go dst src =
     (let n = min (length dst) (length src) in (take n src @ drop n dst, n))"

subsection \<open>Subkey generation (cmac.go, lines 12 to 53)\<close>

definition Rb128 :: byte where "Rb128 = 0x87"

definition Rb64 :: byte where "Rb64 = 0x1b"

text \<open>
  The loop of \<^verbatim>\<open>shifted\<close> over the indices of \<^verbatim>\<open>d\<close>, in order. The indices come from
  \<^verbatim>\<open>range d\<close>, so every access is in range.
\<close>

fun shifted_loop :: "nat list \<Rightarrow> bytes \<Rightarrow> bytes" where
  "shifted_loop [] d = d"
| "shifted_loop (i # is) d =
     (let d1 = (if 0 < i then d[i - 1 := (d ! (i - 1)) OR drop_bit 7 (d ! i)] else d)
      in shifted_loop is (d1[i := push_bit 1 (d1 ! i)]))"

definition shifted :: "bytes \<Rightarrow> bytes" where
  "shifted x = shifted_loop [0..<length x] x"

text \<open>
  \<^verbatim>\<open>subtle.ConstantTimeSelect(v, x, y)\<close> of the Go standard library on the machine
  integers of a 64-bit platform: \<^verbatim>\<open>^(v-1)&x | (v-1)&y\<close>.
\<close>

definition ConstantTimeSelect :: "64 word \<Rightarrow> 64 word \<Rightarrow> 64 word \<Rightarrow> 64 word" where
  "ConstantTimeSelect v x y = ((NOT (v - 1)) AND x) OR ((v - 1) AND y)"

text \<open>
  \<^verbatim>\<open>gensubkey\<close>: reading \<^verbatim>\<open>l[0]\<close> and writing \<^verbatim>\<open>sk[len(sk)-1]\<close> panic on an empty
  \<^verbatim>\<open>l\<close>. The cipher argument is unused by the source.
\<close>

definition gensubkey :: "cipher_Block \<Rightarrow> bytes \<Rightarrow> byte \<Rightarrow> panic + bytes" where
  "gensubkey c l rb =
     (let sk = shifted l in
      if l = [] then Inl IndexOutOfRange
      else Inr (sk[length sk - 1 :=
                  (sk ! (length sk - 1)) XOR
                  ucast (ConstantTimeSelect (ucast (drop_bit 7 (l ! 0))) (ucast rb) 0)]))"

definition gensubkeys :: "cipher_Block \<Rightarrow> panic + (bytes \<times> bytes)" where
  "gensubkeys c =
     (if BlockSize c = 16 \<or> BlockSize c = 8 then
        (let rb = (if BlockSize c = 16 then Rb128 else Rb64) in
         case Encrypt c (zeros (BlockSize c)) of
           Inl e \<Rightarrow> Inl e
         | Inr l \<Rightarrow>
             (case gensubkey c l rb of
                Inl e \<Rightarrow> Inl e
              | Inr k1 \<Rightarrow>
                  (case gensubkey c k1 rb of
                     Inl e \<Rightarrow> Inl e
                   | Inr k2 \<Rightarrow> Inr (k1, k2))))
      else Inl (PanicMsg ''cmac: invalid block size''))"

subsection \<open>The engine (cmac.go, lines 55 to 123)\<close>

record cmac =
  m_c :: cipher_Block
  m_k1 :: bytes
  m_k2 :: bytes
  m_buf :: bytes
  m_x :: bytes
  m_tmp :: bytes

text \<open>\<^verbatim>\<open>Reset\<close>: the buffer becomes \<^verbatim>\<open>nil\<close>, the chaining value a fresh zero block.\<close>

definition Reset :: "cmac \<Rightarrow> cmac" where
  "Reset m = m\<lparr>m_buf := [], m_x := zeros (BlockSize (m_c m))\<rparr>"

definition newcmac :: "cipher_Block \<Rightarrow> panic + cmac" where
  "newcmac c =
     (case gensubkeys c of
        Inl e \<Rightarrow> Inl e
      | Inr (k1, k2) \<Rightarrow>
          Inr (Reset \<lparr>m_c = c, m_k1 = k1, m_k2 = k2, m_buf = [], m_x = [],
                      m_tmp = zeros (BlockSize c)\<rparr>))"

text \<open>
  \<^verbatim>\<open>for i := range m.tmp { m.tmp[i] = m.x[i] ^ b[i] }\<close> and the loops of the same shape
  in \<^verbatim>\<open>Sum\<close>: the destination at each index receives the XOR of two sources, and a
  source shorter than the index panics.
\<close>

fun xor_loop :: "nat list \<Rightarrow> bytes \<Rightarrow> bytes \<Rightarrow> bytes \<Rightarrow> panic + bytes" where
  "xor_loop [] dst a b = Inr dst"
| "xor_loop (i # is) dst a b =
     (if i < length a \<and> i < length b \<and> i < length dst
      then xor_loop is (dst[i := (a ! i) XOR (b ! i)]) a b
      else Inl IndexOutOfRange)"

text \<open>\<^verbatim>\<open>for i := range last { last[i] ^= src[i] }\<close>.\<close>

fun xor_assign_loop :: "nat list \<Rightarrow> bytes \<Rightarrow> bytes \<Rightarrow> panic + bytes" where
  "xor_assign_loop [] dst src = Inr dst"
| "xor_assign_loop (i # is) dst src =
     (if i < length dst \<and> i < length src
      then xor_assign_loop is (dst[i := (dst ! i) XOR (src ! i)]) src
      else Inl IndexOutOfRange)"

definition block :: "cmac \<Rightarrow> bytes \<Rightarrow> panic + cmac" where
  "block m b =
     (case xor_loop [0..<length (m_tmp m)] (m_tmp m) (m_x m) b of
        Inl e \<Rightarrow> Inl e
      | Inr tmp' \<Rightarrow>
          (case Encrypt (m_c m) tmp' of
             Inl e \<Rightarrow> Inl e
           | Inr x' \<Rightarrow> Inr (m\<lparr>m_tmp := tmp', m_x := x'\<rparr>)))"

text \<open>
  The loop of \<^verbatim>\<open>Write\<close>. With a block size of zero and a non-empty \<^verbatim>\<open>d\<close> it never
  ends: not returning is the value \<open>None\<close>.
\<close>

partial_function (option) Write_loop :: "cmac \<Rightarrow> bytes \<Rightarrow> (panic + cmac \<times> bytes) option" where
  "Write_loop m d =
     (if BlockSize (m_c m) < length d then
        (case block m (take (BlockSize (m_c m)) d) of
           Inl e \<Rightarrow> Some (Inl e)
         | Inr m' \<Rightarrow> Write_loop m' (drop (BlockSize (m_c m)) d))
      else Some (Inr (m, d)))"

declare Write_loop.simps [code]

text \<open>
  \<^verbatim>\<open>Write\<close> returns the new engine with Go's pair \<^verbatim>\<open>(len(b), nil)\<close>; the absent error
  is \<open>None\<close>.
\<close>

definition Write :: "cmac \<Rightarrow> bytes \<Rightarrow> (panic + cmac \<times> nat \<times> go_error option) option" where
  "Write m b =
     (case Write_loop m (m_buf m @ b) of
        None \<Rightarrow> None
      | Some (Inl e) \<Rightarrow> Some (Inl e)
      | Some (Inr (m', d)) \<Rightarrow> Some (Inr (m'\<lparr>m_buf := d\<rparr>, length b, None)))"

text \<open>
  \<^verbatim>\<open>Sum\<close> returns the engine as it leaves it together with \<^verbatim>\<open>append(b, last...)\<close>.
  The guard's \<^verbatim>\<open>%\<close> is evaluated only when the buffer is non-empty and panics on a zero
  block size; \<^verbatim>\<open>last[len(m.buf)] = 0x80\<close> panics when the buffer is not shorter than
  \<^verbatim>\<open>last\<close>.
\<close>

definition Sum_last :: "cmac \<Rightarrow> panic + bytes" where
  "Sum_last m =
     (let lastb = zeros (BlockSize (m_c m)) in
      if 0 < length (m_buf m) \<and> BlockSize (m_c m) = 0 then Inl DivideByZero
      else if 0 < length (m_buf m) \<and> length (m_buf m) mod BlockSize (m_c m) = 0 then
        xor_loop [0..<length lastb] lastb (m_buf m) (m_k1 m)
      else
        (let last1 = fst (copy_go lastb (m_buf m)) in
         if length (m_buf m) < length last1 then
           xor_assign_loop [0..<length last1] (last1[length (m_buf m) := 0x80]) (m_k2 m)
         else Inl IndexOutOfRange))"

definition Sum :: "cmac \<Rightarrow> bytes \<Rightarrow> panic + cmac \<times> bytes" where
  "Sum m b =
     (case Sum_last m of
        Inl e \<Rightarrow> Inl e
      | Inr lastb \<Rightarrow>
          (case xor_assign_loop [0..<length lastb] lastb (m_x m) of
             Inl e \<Rightarrow> Inl e
           | Inr lastb' \<Rightarrow>
               (case Encrypt (m_c m) lastb' of
                  Inl e \<Rightarrow> Inl e
                | Inr tag \<Rightarrow> Inr (m, b @ tag))))"

definition Size :: "cmac \<Rightarrow> nat" where
  "Size m = BlockSize (m_c m)"

subsection \<open>Construction (cmac.go, lines 125 to 144)\<close>

definition NewWithCipher :: "cipher_Block \<Rightarrow> panic + (go_error + cmac)" where
  "NewWithCipher c =
     (if BlockSize c = 8 \<or> BlockSize c = 16 then
        (case newcmac c of Inl e \<Rightarrow> Inl e | Inr m \<Rightarrow> Inr (Inr m))
      else Inr (Inl (ErrorString ''cmac: invalid blocksize'')))"

text \<open>
  \<^verbatim>\<open>New\<close> builds the cipher with \<^verbatim>\<open>aes.NewCipher\<close>, which is not part of the package
  and is taken as the parameter \<open>NewCipher\<close>.
\<close>

definition New :: "(bytes \<Rightarrow> go_error + cipher_Block) \<Rightarrow> bytes \<Rightarrow> panic + (go_error + cmac)" where
  "New NewCipher key =
     (case NewCipher key of
        Inl err \<Rightarrow> Inr (Inl err)
      | Inr c \<Rightarrow> NewWithCipher c)"

subsection \<open>Sequences of calls on one engine\<close>

datatype op = OpWrite bytes | OpSum bytes | OpReset

text \<open>
  \<open>run m ops\<close> performs the calls in order on the engine and returns the engine they
  leave; a panic ends the run, and a call that does not return makes the run \<open>None\<close>.
\<close>

fun run :: "cmac \<Rightarrow> op list \<Rightarrow> (panic + cmac) option" where
  "run m [] = Some (Inr m)"
| "run m (OpWrite b # ops) =
     (case Write m b of
        None \<Rightarrow> None
      | Some (Inl e) \<Rightarrow> Some (Inl e)
      | Some (Inr (m', r)) \<Rightarrow> run m' ops)"
| "run m (OpSum b # ops) =
     (case Sum m b of
        Inl e \<Rightarrow> Some (Inl e)
      | Inr (m', t) \<Rightarrow> run m' ops)"
| "run m (OpReset # ops) = run (Reset m) ops"

text \<open>A fresh engine, the chunks written one after the other, then \<^verbatim>\<open>Sum(nil)\<close>.\<close>

definition mac_chunks :: "cipher_Block \<Rightarrow> bytes list \<Rightarrow> (panic + (go_error + bytes)) option" where
  "mac_chunks c chunks =
     (case NewWithCipher c of
        Inl e \<Rightarrow> Some (Inl e)
      | Inr (Inl err) \<Rightarrow> Some (Inr (Inl err))
      | Inr (Inr m0) \<Rightarrow>
          (case run m0 (map OpWrite chunks) of
             None \<Rightarrow> None
           | Some (Inl e) \<Rightarrow> Some (Inl e)
           | Some (Inr m) \<Rightarrow>
               (case Sum m [] of
                  Inl e \<Rightarrow> Some (Inl e)
                | Inr (m', tag) \<Rightarrow> Some (Inr (Inr tag)))))"

subsection \<open>The cursor-based engine (the revision with a fixed buffer and a cursor)\<close>

record cmac_cursor =
  s_c :: cipher_Block
  s_k1 :: bytes
  s_k2 :: bytes
  s_buf :: bytes
  s_x :: bytes
  s_scratch :: bytes
  s_cursor :: nat

text \<open>\<^verbatim>\<open>for i := 0; i < m.c.BlockSize(); i++ { m.buf[i] = 0; m.x[i] = 0 }\<close>.\<close>

fun zero_loop :: "nat list \<Rightarrow> bytes \<Rightarrow> bytes \<Rightarrow> panic + (bytes \<times> bytes)" where
  "zero_loop [] buf x = Inr (buf, x)"
| "zero_loop (i # is) buf x =
     (if i < length buf then
        (if i < length x then zero_loop is (buf[i := 0]) (x[i := 0]) else Inl IndexOutOfRange)
      else Inl IndexOutOfRange)"

definition Reset_cursor :: "cmac_cursor \<Rightarrow> panic + cmac_cursor" where
  "Reset_cursor m =
     (case zero_loop [0..<BlockSize (s_c m)] (s_buf m) (s_x m) of
        Inl e \<Rightarrow> Inl e
      | Inr (buf', x') \<Rightarrow> Inr (m\<lparr>s_buf := buf', s_x := x', s_cursor := 0\<rparr>))"

definition newcmac_cursor :: "cipher_Block \<Rightarrow> panic + cmac_cursor" where
  "newcmac_cursor c =
     (case gensubkeys c of
        Inl e \<Rightarrow> Inl e
      | Inr (k1, k2) \<Rightarrow>
          Reset_cursor \<lparr>s_c = c, s_k1 = k1, s_k2 = k2, s_buf = zeros (BlockSize c),
                        s_x = zeros (BlockSize c), s_scratch = [], s_cursor = 0\<rparr>)"

text \<open>
  The loop of the cursor-based \<^verbatim>\<open>Write\<close>: the full buffer is folded into the chaining
  value, then refilled from the rest of the input. With an empty buffer and a non-empty
  input it never ends.
\<close>

partial_function (option) Write_cursor_loop ::
    "cmac_cursor \<Rightarrow> bytes \<Rightarrow> (panic + cmac_cursor) option" where
  "Write_cursor_loop m b =
     (if 0 < length b then
        (case xor_assign_loop [0..<length (s_buf m)] (s_buf m) (s_x m) of
           Inl e \<Rightarrow> Some (Inl e)
         | Inr buf1 \<Rightarrow>
             (case Encrypt (s_c m) buf1 of
                Inl e \<Rightarrow> Some (Inl e)
              | Inr x' \<Rightarrow>
                  Write_cursor_loop
                    (m\<lparr>s_buf := fst (copy_go buf1 b), s_x := x',
                       s_cursor := snd (copy_go buf1 b)\<rparr>)
                    (drop (snd (copy_go buf1 b)) b)))
      else Some (Inr m))"

declare Write_cursor_loop.simps [code]

text \<open>
  \<^verbatim>\<open>m.buf[m.cursor:]\<close> panics when the cursor is beyond the buffer; the copy writes
  into the buffer from the cursor on.
\<close>

definition Write_cursor ::
    "cmac_cursor \<Rightarrow> bytes \<Rightarrow> (panic + cmac_cursor \<times> nat \<times> go_error option) option" where
  "Write_cursor m b =
     (let totLen = length b in
      if length (s_buf m) < s_cursor m then Some (Inl IndexOutOfRange)
      else
        (let cp = copy_go (drop (s_cursor m) (s_buf m)) b;
             m1 = m\<lparr>s_buf := take (s_cursor m) (s_buf m) @ fst cp,
                    s_cursor := s_cursor m + snd cp\<rparr>
         in case Write_cursor_loop m1 (drop (snd cp) b) of
              None \<Rightarrow> None
            | Some (Inl e) \<Rightarrow> Some (Inl e)
            | Some (Inr m') \<Rightarrow> Some (Inr (m', totLen, None))))"

text \<open>\<^verbatim>\<open>for i := lo; i < hi; i++ { scratch[i] = m.k2[i] }\<close>.\<close>

fun copy_loop :: "nat list \<Rightarrow> bytes \<Rightarrow> bytes \<Rightarrow> panic + bytes" where
  "copy_loop [] dst src = Inr dst"
| "copy_loop (i # is) dst src =
     (if i < length src \<and> i < length dst
      then copy_loop is (dst[i := src ! i]) src
      else Inl IndexOutOfRange)"

definition Sum_cursor_scratch :: "cmac_cursor \<Rightarrow> bytes \<Rightarrow> panic + bytes" where
  "Sum_cursor_scratch m scratch =
     (if s_cursor m = BlockSize (s_c m) then
        xor_loop [0..<length scratch] scratch (s_buf m) (s_k1 m)
      else
        (case xor_loop [0..<s_cursor m] scratch (s_buf m) (s_k2 m) of
           Inl e \<Rightarrow> Inl e
         | Inr scratch1 \<Rightarrow>
             (if s_cursor m < length (s_k2 m) \<and> s_cursor m < length scratch1 then
                copy_loop [s_cursor m + 1..<length (s_buf m)]
                  (scratch1[s_cursor m := 0x80 XOR (s_k2 m ! s_cursor m)]) (s_k2 m)
              else Inl IndexOutOfRange)))"

definition Sum_cursor :: "cmac_cursor \<Rightarrow> bytes \<Rightarrow> panic + cmac_cursor \<times> bytes" where
  "Sum_cursor m b =
     (if BlockSize (s_c m) = 8 \<or> BlockSize (s_c m) = 16 then
        (case Sum_cursor_scratch m (zeros (BlockSize (s_c m))) of
           Inl e \<Rightarrow> Inl e
         | Inr scratch \<Rightarrow>
             (case xor_assign_loop [0..<length scratch] scratch (s_x m) of
                Inl e \<Rightarrow> Inl e
              | Inr scratch' \<Rightarrow>
                  (case Encrypt (s_c m) scratch' of
                     Inl e \<Rightarrow> Inl e
                   | Inr tag \<Rightarrow> Inr (m, b @ tag))))
      else Inl (PanicMsg ''unexpected block size''))"

definition NewWithCipher_cursor :: "cipher_Block \<Rightarrow> panic + (go_error + cmac_cursor)" where
  "NewWithCipher_cursor c =
     (if BlockSize c = 8 \<or> BlockSize c = 16 then
        (case newcmac_cursor c of Inl e \<Rightarrow> Inl e | Inr m \<Rightarrow> Inr (Inr m))
      else Inr (Inl (ErrorString ''cmac: invalid blocksize'')))"

fun write_all_cursor :: "cmac_cursor \<Rightarrow> bytes list \<Rightarrow> (panic + cmac_cursor) option" where
  "write_all_cursor m [] = Some (Inr m)"
| "write_all_cursor m (b # bs) =
     (case Write_cursor m b of
        None \<Rightarrow> None
      | Some (Inl e) \<Rightarrow> Some (Inl e)
      | Some (Inr (m', r)) \<Rightarrow> write_all_cursor m' bs)"

definition mac_chunks_cursor ::
    "cipher_Block \<Rightarrow> bytes list \<Rightarrow> (panic + (go_error + bytes)) option" where
  "mac_chunks_cursor c chunks =
     (case NewWithCipher_cursor c of
        Inl e \<Rightarrow> Some (Inl e)
      | Inr (Inl err) \<Rightarrow> Some (Inr (Inl err))
      | Inr (Inr m0) \<Rightarrow>
          (case write_all_cursor m0 chunks of
             None \<Rightarrow> None
           | Some (Inl e) \<Rightarrow> Some (Inl e)
           | Some (Inr m) \<Rightarrow>
               (case Sum_cursor m [] of
                  Inl e \<Rightarrow> Some (Inl e)
                | Inr (m', tag) \<Rightarrow> Some (Inr (Inr tag)))))"

subsection \<open>The specification's rules, written from its words\<close>

text \<open>
  Doubling: the left shift of the whole byte sequence by one bit, each byte's low bit
  filled from the high bit of the next byte, then the constant XORed into the last byte
  when the most significant bit of the original was set.
\<close>

definition shift_left_spec :: "bytes \<Rightarrow> bytes" where
  "shift_left_spec v =
     map (\<lambda>i. push_bit 1 (v ! i) OR (if Suc i < length v then drop_bit 7 (v ! Suc i) else 0))
       [0..<length v]"

definition double_spec :: "byte \<Rightarrow> bytes \<Rightarrow> bytes" where
  "double_spec rb v =
     (let s = shift_left_spec v in
      if bit (v ! 0) 7 then s[length v - 1 := (s ! (length v - 1)) XOR rb] else s)"

definition Rb_spec :: "nat \<Rightarrow> byte" where
  "Rb_spec bs = (if bs = 16 then 0x87 else 0x1b)"

text \<open>The value of a byte sequence read as one big-endian number.\<close>

definition be_nat :: "bytes \<Rightarrow> nat" where
  "be_nat v = foldl (\<lambda>acc b. 256 * acc + unat b) 0 v"

text \<open>
  Append-then-drain: while the data holds more than one block, the front block is folded
  into the chaining value and removed. The rule is for a positive block size.
\<close>

function drain_spec :: "(bytes \<Rightarrow> bytes) \<Rightarrow> nat \<Rightarrow> bytes \<Rightarrow> bytes \<Rightarrow> bytes \<times> bytes" where
  "drain_spec E bs X d =
     (if 0 < bs \<and> bs < length d
      then drain_spec E bs (E (map2 (XOR) X (take bs d))) (drop bs d)
      else (X, d))"
  by pat_completeness auto

termination
  by (relation "measure (\<lambda>(E, bs, X, d). length d)") auto

declare drain_spec.simps [simp del]

text \<open>
  Finalization: a full buffer is XORed with \<open>K1\<close>; a shorter one is extended by
  \<open>0x80\<close> and zeros to a block and XORed with \<open>K2\<close>; the tag is the encryption of that
  XORed with the chaining value.
\<close>

definition pad_spec :: "nat \<Rightarrow> bytes \<Rightarrow> bytes" where
  "pad_spec bs buf = buf @ [0x80] @ replicate (bs - length buf - 1) 0"

definition finalize_spec ::
    "(bytes \<Rightarrow> bytes) \<Rightarrow> nat \<Rightarrow> bytes \<Rightarrow> bytes \<Rightarrow> bytes \<Rightarrow> bytes \<Rightarrow> bytes" where
  "finalize_spec E bs K1 K2 X buf =
     (let lastb = (if length buf = bs then map2 (XOR) buf K1
                   else map2 (XOR) (pad_spec bs buf) K2)
      in E (map2 (XOR) lastb X))"

text \<open>The subkeys the specification derives for a cipher.\<close>

definition K1_of :: "cipher_Block \<Rightarrow> bytes" where
  "K1_of c = double_spec (Rb_spec (BlockSize c)) (encrypt c (zeros (BlockSize c)))"

definition K2_of :: "cipher_Block \<Rightarrow> bytes" where
  "K2_of c = double_spec (Rb_spec (BlockSize c)) (K1_of c)"

text \<open>The invariant of the engine for a cipher \<open>c\<close>.\<close>

definition engine_inv :: "cipher_Block \<Rightarrow> cmac \<Rightarrow> bool" where
  "engine_inv c m \<longleftrightarrow>
     m_c m = c \<and> (BlockSize c = 8 \<or> BlockSize c = 16) \<and>
     length (m_k1 m) = BlockSize c \<and> length (m_k2 m) = BlockSize c \<and>
     length (m_x m) = BlockSize c \<and> length (m_tmp m) = BlockSize c \<and>
     length (m_buf m) \<le> BlockSize c"

text \<open>The invariant of the cursor-based engine: the buffer is one block, the cursor within it.\<close>

definition cursor_inv :: "cipher_Block \<Rightarrow> cmac_cursor \<Rightarrow> bool" where
  "cursor_inv c s \<longleftrightarrow>
     s_c s = c \<and> (BlockSize c = 8 \<or> BlockSize c = 16) \<and>
     length (s_k1 s) = BlockSize c \<and> length (s_k2 s) = BlockSize c \<and>
     length (s_x s) = BlockSize c \<and> length (s_buf s) = BlockSize c \<and>
     s_cursor s \<le> BlockSize c"

subsection \<open>Example ciphers\<close>

text \<open>
  A toy cipher with 8-byte blocks (it reverses the block and adds \<open>0x91\<close> to every byte),
  one whose block size is 12, and one whose encryption panics on every call.
\<close>

definition toy_cipher :: cipher_Block where
  "toy_cipher = \<lparr>BlockSize = 8, Encrypt = (\<lambda>b. Inr (map (\<lambda>v. v + 0x91) (rev b)))\<rparr>"

definition panicking_cipher :: "nat \<Rightarrow> cipher_Block" where
  "panicking_cipher n = \<lparr>BlockSize = n, Encrypt = (\<lambda>b. Inl CipherPanic)\<rparr>"

text \<open>The engine of the toy cipher after the nine bytes 1 to 9 have been written.\<close>

definition toy_engine :: cmac where
  "toy_engine =
     \<lparr>m_c = toy_cipher,
      m_k1 = [35, 35, 35, 35, 35, 35, 35, 57],
      m_k2 = [70, 70, 70, 70, 70, 70, 70, 114],
      m_buf = [9],
      m_x = [153, 152, 151, 150, 149, 148, 147, 146],
      m_tmp = [1, 2, 3, 4, 5, 6, 7, 8]\<rparr>"

section \<open>Properties of the loops\<close>

lemma shifted_loop_append:
  "shifted_loop (as @ bs) d = shifted_loop bs (shifted_loop as d)"
  by (induction as arbitrary: d) (simp_all add: Let_def)

lemma xor_loop_append:
  "xor_loop (as @ bs) dst a b =
     (case xor_loop as dst a b of Inl e \<Rightarrow> Inl e | Inr dst' \<Rightarrow> xor_loop bs dst' a b)"
  by (induction as arbitrary: dst) simp_all

lemma xor_assign_loop_append:
  "xor_assign_loop (as @ bs) dst src =
     (case xor_assign_loop as dst src of
        Inl e \<Rightarrow> Inl e
      | Inr dst' \<Rightarrow> xor_assign_loop bs dst' src)"
  by (induction as arbitrary: dst) simp_all

text \<open>After the first \<open>k\<close> indices the loop has filled a prefix and left the rest.\<close>

lemma xor_loop_prefix:
  "k \<le> length dst \<Longrightarrow> k \<le> length a \<Longrightarrow> k \<le> length b \<Longrightarrow>
   xor_loop [0..<k] dst a b = Inr (map2 (XOR) (take k a) (take k b) @ drop k dst)"
proof (induction k)
  case 0
  then show ?case by simp
next
  case (Suc k)
  then have "xor_loop [0..<Suc k] dst a b =
      Inr ((map2 (XOR) (take k a) (take k b) @ drop k dst)[k := (a ! k) XOR (b ! k)])"
    by (simp add: xor_loop_append)
  also have "(map2 (XOR) (take k a) (take k b) @ drop k dst)[k := (a ! k) XOR (b ! k)] =
      map2 (XOR) (take (Suc k) a) (take (Suc k) b) @ drop (Suc k) dst"
    using Suc.prems
    by (intro nth_equalityI) (auto simp: nth_append nth_list_update less_Suc_eq)
  finally show ?case .
qed

lemma xor_assign_loop_prefix:
  "k \<le> length dst \<Longrightarrow> k \<le> length src \<Longrightarrow>
   xor_assign_loop [0..<k] dst src =
     Inr (map2 (XOR) (take k dst) (take k src) @ drop k dst)"
proof (induction k)
  case 0
  then show ?case by simp
next
  case (Suc k)
  then have "xor_assign_loop [0..<Suc k] dst src =
      Inr ((map2 (XOR) (take k dst) (take k src) @ drop k dst)
             [k := ((map2 (XOR) (take k dst) (take k src) @ drop k dst) ! k) XOR (src ! k)])"
    by (simp add: xor_assign_loop_append)
  also have "(map2 (XOR) (take k dst) (take k src) @ drop k dst)
             [k := ((map2 (XOR) (take k dst) (take k src) @ drop k dst) ! k) XOR (src ! k)] =
      map2 (XOR) (take (Suc k) dst) (take (Suc k) src) @ drop (Suc k) dst"
    using Suc.prems
    by (intro nth_equalityI) (auto simp: nth_append nth_list_update less_Suc_eq)
  finally show ?case .
qed

lemma xor_loop_full:
  "length dst = n \<Longrightarrow> n \<le> length a \<Longrightarrow> n \<le> length b \<Longrightarrow>
   xor_loop [0..<n] dst a b = Inr (map2 (XOR) (take n a) (take n b))"
  by (simp add: xor_loop_prefix)

lemma xor_assign_loop_full:
  "length dst = n \<Longrightarrow> n \<le> length src \<Longrightarrow>
   xor_assign_loop [0..<n] dst src = Inr (map2 (XOR) dst (take n src))"
  by (simp add: xor_assign_loop_prefix)

section \<open>Subkey generation\<close>

lemma length_shift_left_spec: "length (shift_left_spec v) = length v"
  by (simp add: shift_left_spec_def)

lemma length_double_spec: "length (double_spec rb v) = length v"
  by (simp add: double_spec_def Let_def length_shift_left_spec)

lemma shifted_loop_prefix:
  "k \<le> length x \<Longrightarrow>
   shifted_loop [0..<k] x =
     map (\<lambda>j. if j < k
               then push_bit 1 (x ! j) OR (if Suc j < k then drop_bit 7 (x ! Suc j) else 0)
               else x ! j) [0..<length x]"
proof (induction k)
  case 0
  then show ?case by (simp add: map_nth)
next
  case (Suc k)
  then show ?case
    apply (simp add: shifted_loop_append Let_def)
    apply (intro conjI impI nth_equalityI)
    apply (auto simp: nth_list_update less_Suc_eq)
    done
qed

lemma shifted_eq_spec: "shifted x = shift_left_spec x"
  by (simp add: shifted_def shift_left_spec_def shifted_loop_prefix)

lemma msb_byte: "drop_bit 7 (b :: byte) = (if bit b 7 then 1 else 0)"
proof (rule bit_word_eqI)
  fix n assume "n < LENGTH(8)"
  show "bit (drop_bit 7 b) n \<longleftrightarrow> bit (if bit b 7 then 1 else 0 :: byte) n"
  proof (cases n)
    case 0
    then show ?thesis by (simp add: bit_simps)
  next
    case (Suc k)
    then have "\<not> bit b (7 + n)" using bit_imp_le_length [of b "7 + n"] by auto
    with Suc show ?thesis by (simp add: bit_simps)
  qed
qed

lemma ucast_byte_64: "(ucast (ucast (rb :: byte) :: 64 word) :: byte) = rb"
  by (rule bit_word_eqI) (auto simp: bit_simps)

text \<open>The constant-time selection picks the constant exactly when the top bit is set.\<close>

lemma select_msb:
  "(ucast (ConstantTimeSelect (ucast (drop_bit 7 (b :: byte))) (ucast (rb :: byte)) 0) :: byte) =
     (if bit b 7 then rb else 0)"
  by (simp add: msb_byte ConstantTimeSelect_def ucast_byte_64)

lemma gensubkey_eq_spec: "l \<noteq> [] \<Longrightarrow> gensubkey c l rb = Inr (double_spec rb l)"
  by (simp add: gensubkey_def double_spec_def Let_def shifted_eq_spec select_msb
      length_shift_left_spec)

section \<open>Doubling as arithmetic on the big-endian value\<close>

lemma foldl_be: "foldl (\<lambda>acc b. 256 * acc + unat (b :: byte)) a v = a * 256 ^ length v + be_nat v"
proof (induction v arbitrary: a)
  case Nil
  show ?case by (simp add: be_nat_def)
next
  case (Cons x v)
  have "foldl (\<lambda>acc b. 256 * acc + unat b) a (x # v) =
        (256 * a + unat x) * 256 ^ length v + be_nat v"
    by (simp add: Cons.IH)
  moreover have "be_nat (x # v) = unat x * 256 ^ length v + be_nat v"
    by (simp add: be_nat_def Cons.IH [of "unat x"])
  ultimately show ?case by (simp add: algebra_simps)
qed

lemma be_nat_Cons: "be_nat (x # v) = unat x * 256 ^ length v + be_nat v"
  using foldl_be [of "unat x" v] by (simp add: be_nat_def)

lemma be_nat_Nil: "be_nat [] = 0"
  by (simp add: be_nat_def)

lemma be_nat_less: "be_nat v < 256 ^ length v"
proof (induction v)
  case Nil
  show ?case by (simp add: be_nat_Nil)
next
  case (Cons x v)
  define P :: nat where "P = 256 ^ length v"
  have "unat x < 2 ^ LENGTH(8)" by (rule unsigned_less)
  then have "unat x \<le> 255" by simp
  then have "unat x * P \<le> 255 * P" by (rule mult_le_mono1)
  moreover have "be_nat v < P" using Cons by (simp add: P_def)
  ultimately have "unat x * P + be_nat v < 256 * P" by arith
  then show ?case by (simp add: be_nat_Cons P_def)
qed

lemma shift_left_spec_Cons:
  "shift_left_spec (x # v) =
     (push_bit 1 x OR (if v = [] then 0 else drop_bit 7 (hd v))) # shift_left_spec v"
  by (intro nth_equalityI)
     (auto simp: shift_left_spec_def nth_Cons' hd_conv_nth simp del: upt_Suc)

lemma unat_push1: "unat (push_bit 1 (x :: byte)) = 2 * (unat x mod 128)"
proof -
  have "unat (push_bit 1 x) = (2 * unat x) mod (2 * 128)"
    by (simp add: unat_word_ariths push_bit_eq_mult mult.commute)
  also have "\<dots> = 2 * (unat x mod 128)"
    by (rule mult_mod_right [symmetric])
  finally show ?thesis .
qed

lemma unat_shift_or:
  "unat (push_bit 1 (x :: byte) OR (if c then 1 else 0)) =
     2 * (unat x mod 128) + (if c then 1 else 0)"
proof (cases c)
  case False
  then show ?thesis using unat_push1 [of x] by (simp add: push_bit_eq_mult)
next
  case True
  have ev: "even (push_bit 1 x)" by simp
  have eq: "push_bit 1 x OR 1 = push_bit 1 x + 1"
    using ev by (simp add: or_one_eq)
  have "unat x mod 128 < 128" by simp
  then have lt: "2 * (unat x mod 128) + 1 < 256" by arith
  have "unat (push_bit 1 x + 1) = (unat (push_bit 1 x) + unat (1 :: byte)) mod 2 ^ LENGTH(8)"
    by (rule unat_word_ariths)
  also have "\<dots> = (2 * (unat x mod 128) + 1) mod 256"
    by (simp only: unat_push1) simp
  also have "\<dots> = 2 * (unat x mod 128) + 1"
    using lt by (rule mod_less)
  finally show ?thesis using True eq by (simp add: push_bit_eq_mult)
qed

lemma msb_div: "unat (x :: byte) div 128 = (if bit x 7 then 1 else 0)"
proof -
  have "unat (drop_bit 7 x) = drop_bit 7 (unat x)"
    by (rule unat_drop_bit_eq)
  also have "\<dots> = unat x div 2 ^ 7"
    by (rule drop_bit_eq_div)
  finally show ?thesis by (simp only: msb_byte) (simp split: if_splits)
qed

text \<open>Doubling a value below \<open>256 * P\<close>, split at its top bit.\<close>

lemma double_split:
  fixes a r P :: nat
  assumes "a < 256" and "r < P"
  shows "(2 * (a * P + r)) div (256 * P) = a div 128"
    and "(2 * (a * P + r)) mod (256 * P) = 2 * (a mod 128) * P + 2 * r"
proof -
  define q where "q = a div 128"
  define t where "t = a mod 128"
  have a: "a = 128 * q + t" by (simp add: q_def t_def)
  have t: "t < 128" by (simp add: t_def)
  define s where "s = 2 * t * P + 2 * r"
  have "2 * t * P \<le> 254 * P" using t by simp
  moreover have "2 * r < 2 * P" using assms(2) by simp
  ultimately have s: "s < 256 * P" unfolding s_def by arith
  have e: "2 * (a * P + r) = s + q * (256 * P)"
    by (simp add: a s_def algebra_simps)
  show "(2 * (a * P + r)) div (256 * P) = a div 128"
    unfolding e using s by (simp add: q_def)
  show "(2 * (a * P + r)) mod (256 * P) = 2 * (a mod 128) * P + 2 * r"
    unfolding e using s by (simp add: s_def t_def)
qed

lemma carry_be_nat: "(2 * be_nat v) div 256 ^ length v = (if v \<noteq> [] \<and> bit (hd v) 7 then 1 else 0)"
proof (cases v)
  case Nil
  then show ?thesis by (simp add: be_nat_Nil)
next
  case (Cons x w)
  have x: "unat x < 256" using unsigned_less [of x] by simp
  have "(2 * (unat x * 256 ^ length w + be_nat w)) div (256 * 256 ^ length w) = unat x div 128"
    by (rule double_split(1) [OF x be_nat_less])
  then show ?thesis by (simp add: Cons be_nat_Cons msb_div)
qed

text \<open>
  The shift of the specification doubles the big-endian value of the sequence and drops
  the bit that leaves it.
\<close>

lemma be_nat_shift_left_spec:
  "be_nat (shift_left_spec v) = (2 * be_nat v) mod 256 ^ length v"
proof (induction v)
  case Nil
  show ?case by (simp add: shift_left_spec_def be_nat_Nil)
next
  case (Cons x v)
  define P :: nat where "P = 256 ^ length v"
  define r where "r = be_nat v"
  define cb :: nat where "cb = (if v \<noteq> [] \<and> bit (hd v) 7 then 1 else 0)"
  have x: "unat x < 256" using unsigned_less [of x] by simp
  have r: "r < P" by (simp add: r_def P_def be_nat_less)
  have carry: "(2 * r) div P = cb"
    unfolding r_def P_def cb_def by (rule carry_be_nat)
  have hi: "(if v = [] then 0 else drop_bit 7 (hd v)) =
            (if v \<noteq> [] \<and> bit (hd v) 7 then 1 else 0 :: byte)"
    by (simp add: msb_byte)
  have "be_nat (shift_left_spec (x # v)) =
        unat (push_bit 1 x OR (if v \<noteq> [] \<and> bit (hd v) 7 then 1 else 0)) * P +
        be_nat (shift_left_spec v)"
    by (simp only: shift_left_spec_Cons hi be_nat_Cons length_shift_left_spec P_def)
  also have "\<dots> = (2 * (unat x mod 128) + cb) * P + (2 * r) mod P"
    by (simp only: unat_shift_or Cons.IH cb_def r_def P_def)
  also have "\<dots> = 2 * (unat x mod 128) * P + (cb * P + (2 * r) mod P)"
    by (simp add: algebra_simps)
  also have "cb * P + (2 * r) mod P = 2 * r"
    unfolding carry [symmetric] by (simp add: mult.commute)
  also have "2 * (unat x mod 128) * P + 2 * r = (2 * (unat x * P + r)) mod (256 * P)"
    by (rule double_split(2) [OF x r, symmetric])
  finally show ?case by (simp add: be_nat_Cons P_def r_def)
qed

section \<open>The append-based engine\<close>

lemma cipher_wf_Encrypt:
  "cipher_wf c \<Longrightarrow> length b = BlockSize c \<Longrightarrow> Encrypt c b = Inr (encrypt c b)"
  by (auto simp: cipher_wf_def encrypt_def)

lemma cipher_wf_length:
  "cipher_wf c \<Longrightarrow> length b = BlockSize c \<Longrightarrow> length (encrypt c b) = BlockSize c"
  by (auto simp: cipher_wf_def encrypt_def)

lemma Rb_spec_eq: "(if n = 16 then Rb128 else Rb64) = Rb_spec n"
  by (simp add: Rb_spec_def Rb128_def Rb64_def)

lemma gensubkeys_wf:
  assumes "cipher_wf c" and "BlockSize c = 8 \<or> BlockSize c = 16"
  shows "gensubkeys c =
           Inr (double_spec (Rb_spec (BlockSize c)) (encrypt c (zeros (BlockSize c))),
                double_spec (Rb_spec (BlockSize c))
                  (double_spec (Rb_spec (BlockSize c)) (encrypt c (zeros (BlockSize c)))))"
proof -
  let ?L = "encrypt c (zeros (BlockSize c))"
  have z: "length (zeros (BlockSize c)) = BlockSize c" by (simp add: zeros_def)
  have E: "Encrypt c (zeros (BlockSize c)) = Inr ?L"
    using assms(1) z by (rule cipher_wf_Encrypt)
  have len: "length ?L = BlockSize c"
    using assms(1) z by (rule cipher_wf_length)
  with assms(2) have ne: "?L \<noteq> []" by auto
  then have ne2: "double_spec (Rb_spec (BlockSize c)) ?L \<noteq> []"
    using length_double_spec [of "Rb_spec (BlockSize c)" ?L] by auto
  show ?thesis
    using assms(2) by (auto simp add: gensubkeys_def E Let_def Rb_spec_eq gensubkey_eq_spec [OF ne] gensubkey_eq_spec [OF ne2])
qed

lemma NewWithCipher_wf:
  assumes "cipher_wf c" and "BlockSize c = 8 \<or> BlockSize c = 16"
  shows "NewWithCipher c =
           Inr (Inr \<lparr>m_c = c, m_k1 = K1_of c, m_k2 = K2_of c, m_buf = [],
                     m_x = zeros (BlockSize c), m_tmp = zeros (BlockSize c)\<rparr>)"
  using assms(2) by (auto simp add: NewWithCipher_def newcmac_def gensubkeys_wf [OF assms] Reset_def K1_of_def K2_of_def)

lemma length_K1_of: "cipher_wf c \<Longrightarrow> length (K1_of c) = BlockSize c"
  by (simp add: K1_of_def length_double_spec cipher_wf_length zeros_def)

lemma length_K2_of: "cipher_wf c \<Longrightarrow> length (K2_of c) = BlockSize c"
  by (simp add: K2_of_def length_double_spec length_K1_of)

lemma engine_inv_init:
  assumes "cipher_wf c" and "BlockSize c = 8 \<or> BlockSize c = 16"
  shows "engine_inv c \<lparr>m_c = c, m_k1 = K1_of c, m_k2 = K2_of c, m_buf = [],
                     m_x = zeros (BlockSize c), m_tmp = zeros (BlockSize c)\<rparr>"
  using assms by (simp add: engine_inv_def length_K1_of length_K2_of zeros_def)

lemma engine_inv_Reset: "engine_inv c m \<Longrightarrow> engine_inv c (Reset m)"
  by (simp add: engine_inv_def Reset_def zeros_def)

lemma block_wf:
  assumes "cipher_wf c" and "engine_inv c m" and "length b = BlockSize c"
  shows "block m b = Inr (m\<lparr>m_tmp := map2 (XOR) (m_x m) b,
                            m_x := encrypt c (map2 (XOR) (m_x m) b)\<rparr>)"
proof -
  from assms(2) have c: "m_c m = c" and lx: "length (m_x m) = BlockSize c"
    and lt: "length (m_tmp m) = BlockSize c"
    by (simp_all add: engine_inv_def)
  have "xor_loop [0..<length (m_tmp m)] (m_tmp m) (m_x m) b = Inr (map2 (XOR) (m_x m) b)"
    using lx lt assms(3) by (simp add: xor_loop_full)
  moreover have "Encrypt c (map2 (XOR) (m_x m) b) = Inr (encrypt c (map2 (XOR) (m_x m) b))"
    using assms(1) lx assms(3) by (simp add: cipher_wf_Encrypt)
  ultimately show ?thesis by (simp add: block_def c)
qed

lemma engine_inv_block:
  assumes "cipher_wf c" and "engine_inv c m" and "length b = BlockSize c"
  shows "engine_inv c (m\<lparr>m_tmp := map2 (XOR) (m_x m) b,
                            m_x := encrypt c (map2 (XOR) (m_x m) b)\<rparr>)"
  using assms by (simp add: engine_inv_def cipher_wf_length)

lemma Write_loop_wf:
  assumes "cipher_wf c"
  shows "engine_inv c m \<Longrightarrow>
         \<exists>t. Write_loop m d =
                Some (Inr (m\<lparr>m_tmp := t, m_x := fst (drain_spec (encrypt c) (BlockSize c) (m_x m) d)\<rparr>,
                           snd (drain_spec (encrypt c) (BlockSize c) (m_x m) d))) \<and>
             length t = BlockSize c"
proof (induction "length d" arbitrary: m d rule: less_induct)
  case less
  from less.prems have c: "m_c m = c" and pos: "0 < BlockSize c"
    and lt: "length (m_tmp m) = BlockSize c"
    by (auto simp: engine_inv_def)
  show ?case
  proof (cases "BlockSize c < length d")
    case False
    then have "Write_loop m d = Some (Inr (m, d))"
      by (subst Write_loop.simps) (simp add: c)
    moreover have "drain_spec (encrypt c) (BlockSize c) (m_x m) d = (m_x m, d)"
      using False by (subst drain_spec.simps) simp
    ultimately show ?thesis using lt by (intro exI [of _ "m_tmp m"]) simp
  next
    case True
    let ?b = "take (BlockSize c) d"
    let ?m' = "m\<lparr>m_tmp := map2 (XOR) (m_x m) ?b, m_x := encrypt c (map2 (XOR) (m_x m) ?b)\<rparr>"
    have lb: "length ?b = BlockSize c" using True by simp
    have blk: "block m ?b = Inr ?m'" by (rule block_wf [OF assms less.prems lb])
    have inv': "engine_inv c ?m'" by (rule engine_inv_block [OF assms less.prems lb])
    have "length (drop (BlockSize c) d) < length d" using True pos by simp
    from less.hyps [OF this inv'] obtain t where
      t: "Write_loop ?m' (drop (BlockSize c) d) =
            Some (Inr (?m'\<lparr>m_tmp := t, m_x := fst (drain_spec (encrypt c) (BlockSize c) (m_x ?m') (drop (BlockSize c) d))\<rparr>,
                       snd (drain_spec (encrypt c) (BlockSize c) (m_x ?m') (drop (BlockSize c) d))))"
      and lt': "length t = BlockSize c" by blast
    have W: "Write_loop m d = Write_loop ?m' (drop (BlockSize c) d)"
      using True by (subst Write_loop.simps) (simp add: c blk)
    have D: "drain_spec (encrypt c) (BlockSize c) (m_x m) d =
             drain_spec (encrypt c) (BlockSize c) (m_x ?m') (drop (BlockSize c) d)"
      using True pos by (subst drain_spec.simps) simp
    show ?thesis
      using t lt' by (intro exI [of _ t]) (simp add: W D)
  qed
qed

lemma drain_spec_small: "length d \<le> bs \<Longrightarrow> drain_spec E bs X d = (X, d)"
  by (subst drain_spec.simps) simp

lemma drain_spec_step:
  "0 < bs \<Longrightarrow> bs < length d \<Longrightarrow>
   drain_spec E bs X d = drain_spec E bs (E (map2 (XOR) X (take bs d))) (drop bs d)"
  by (subst drain_spec.simps) simp

lemma drain_spec_append:
  "drain_spec E bs (fst (drain_spec E bs X d)) (snd (drain_spec E bs X d) @ b) =
   drain_spec E bs X (d @ b)"
proof (induction E bs X d rule: drain_spec.induct)
  case (1 E bs X d)
  show ?case
  proof (cases "0 < bs \<and> bs < length d")
    case True
    then have "drain_spec E bs X (d @ b) =
        drain_spec E bs (E (map2 (XOR) X (take bs d))) (drop bs d @ b)"
      by (subst drain_spec.simps) simp
    with 1 True show ?thesis by (simp add: drain_spec_step)
  next
    case False
    then have "drain_spec E bs X d = (X, d)" by (subst drain_spec.simps) auto
    then show ?thesis by simp
  qed
qed

lemma drain_spec_length_fst:
  "(\<And>b. length b = bs \<Longrightarrow> length (E b) = bs) \<Longrightarrow> length X = bs \<Longrightarrow>
   length (fst (drain_spec E bs X d)) = bs"
proof (induction E bs X d rule: drain_spec.induct)
  case (1 E bs X d)
  show ?case
  proof (cases "0 < bs \<and> bs < length d")
    case True
    have "length (E (map2 (XOR) X (take bs d))) = bs"
      using True 1(3) by (intro 1(2)) simp
    with 1 True show ?thesis by (simp add: drain_spec_step)
  next
    case False
    then have "drain_spec E bs X d = (X, d)" by (subst drain_spec.simps) auto
    with 1(3) show ?thesis by simp
  qed
qed

text \<open>What stays in the buffer: everything after the last block boundary that has data behind it.\<close>

lemma drain_spec_snd:
  "snd (drain_spec E bs X d) = drop (bs * ((length d - 1) div bs)) d"
proof (induction E bs X d rule: drain_spec.induct)
  case (1 E bs X d)
  show ?case
  proof (cases "0 < bs \<and> bs < length d")
    case True
    then have "bs \<le> length d - 1" by arith
    with True have "(length d - 1) div bs = Suc ((length d - bs - 1) div bs)"
      using le_div_geq [of bs "length d - 1"] by (simp add: diff_commute)
    with 1 True show ?thesis by (simp add: drain_spec_step add.commute)
  next
    case False
    then have "drain_spec E bs X d = (X, d)" by (subst drain_spec.simps) auto
    moreover have "bs * ((length d - 1) div bs) = 0" using False by (cases "bs = 0") auto
    ultimately show ?thesis by auto
  qed
qed

lemma drain_spec_length_snd: "0 < bs \<Longrightarrow> length (snd (drain_spec E bs X d)) \<le> bs"
proof (induction E bs X d rule: drain_spec.induct)
  case (1 E bs X d)
  show ?case
  proof (cases "0 < bs \<and> bs < length d")
    case True
    with 1 show ?thesis by (simp add: drain_spec_step)
  next
    case False
    then have "drain_spec E bs X d = (X, d)" by (subst drain_spec.simps) auto
    with False 1(2) show ?thesis by simp
  qed
qed

lemma drain_spec_snd_nonempty: "d \<noteq> [] \<Longrightarrow> snd (drain_spec E bs X d) \<noteq> []"
proof (induction E bs X d rule: drain_spec.induct)
  case (1 E bs X d)
  show ?case
  proof (cases "0 < bs \<and> bs < length d")
    case True
    with 1 show ?thesis by (simp add: drain_spec_step)
  next
    case False
    then have "drain_spec E bs X d = (X, d)" by (subst drain_spec.simps) auto
    with 1(2) show ?thesis by simp
  qed
qed

lemma Write_wf:
  assumes "cipher_wf c" and "engine_inv c m"
  shows "\<exists>t. Write m b =
           Some (Inr (m\<lparr>m_tmp := t,
                        m_x := fst (drain_spec (encrypt c) (BlockSize c) (m_x m) (m_buf m @ b)),
                        m_buf := snd (drain_spec (encrypt c) (BlockSize c) (m_x m) (m_buf m @ b))\<rparr>,
                      length b, None)) \<and>
           length t = BlockSize c"
proof -
  from Write_loop_wf [OF assms, of "m_buf m @ b"] obtain t where
    "Write_loop m (m_buf m @ b) =
       Some (Inr (m\<lparr>m_tmp := t, m_x := fst (drain_spec (encrypt c) (BlockSize c) (m_x m) (m_buf m @ b))\<rparr>,
                  snd (drain_spec (encrypt c) (BlockSize c) (m_x m) (m_buf m @ b))))"
    and "length t = BlockSize c" by blast
  then show ?thesis by (intro exI [of _ t]) (simp add: Write_def)
qed

lemma engine_inv_Write:
  assumes "cipher_wf c" and "engine_inv c m" and "length t = BlockSize c"
  shows "engine_inv c (m\<lparr>m_tmp := t,
                        m_x := fst (drain_spec (encrypt c) (BlockSize c) (m_x m) d),
                        m_buf := snd (drain_spec (encrypt c) (BlockSize c) (m_x m) d)\<rparr>)"
proof -
  from assms(2) have pos: "0 < BlockSize c" and lx: "length (m_x m) = BlockSize c"
    by (auto simp: engine_inv_def)
  have "length (fst (drain_spec (encrypt c) (BlockSize c) (m_x m) d)) = BlockSize c"
    using lx by (intro drain_spec_length_fst) (simp_all add: cipher_wf_length [OF assms(1)])
  moreover have "length (snd (drain_spec (encrypt c) (BlockSize c) (m_x m) d)) \<le> BlockSize c"
    using pos by (rule drain_spec_length_snd)
  ultimately show ?thesis using assms(2,3) by (simp add: engine_inv_def)
qed

lemma pad_update:
  "length buf < bs \<Longrightarrow>
   (fst (copy_go (zeros bs) buf))[length buf := 0x80] = pad_spec bs buf"
  by (intro nth_equalityI)
     (auto simp: copy_go_def Let_def zeros_def pad_spec_def nth_append nth_list_update
       nth_Cons' min_def)

lemma length_pad_spec: "length buf < bs \<Longrightarrow> length (pad_spec bs buf) = bs"
  by (simp add: pad_spec_def)

lemma Sum_last_wf:
  assumes "engine_inv c m"
  shows "Sum_last m =
           Inr (if length (m_buf m) = BlockSize c then map2 (XOR) (m_buf m) (m_k1 m)
                else map2 (XOR) (pad_spec (BlockSize c) (m_buf m)) (m_k2 m))"
proof -
  from assms have c: "m_c m = c" and pos: "0 < BlockSize c"
    and l1: "length (m_k1 m) = BlockSize c" and l2: "length (m_k2 m) = BlockSize c"
    and lb: "length (m_buf m) \<le> BlockSize c"
    by (auto simp: engine_inv_def)
  show ?thesis
  proof (cases "length (m_buf m) = BlockSize c")
    case True
    then show ?thesis
      using pos l1 by (simp add: Sum_last_def c Let_def zeros_def xor_loop_full)
  next
    case False
    with lb have lt: "length (m_buf m) < BlockSize c" by simp
    then have g: "\<not> (0 < length (m_buf m) \<and> length (m_buf m) mod BlockSize c = 0)"
      by auto
    have len1: "length (fst (copy_go (zeros (BlockSize c)) (m_buf m))) = BlockSize c"
      using lt by (simp add: copy_go_def Let_def zeros_def)
    show ?thesis
      using False lt pos g l2
      by (simp add: Sum_last_def c Let_def len1 pad_update xor_assign_loop_full length_pad_spec del: One_nat_def)
  qed
qed

lemma Sum_wf:
  assumes "cipher_wf c" and "engine_inv c m"
  shows "Sum m b =
           Inr (m, b @ finalize_spec (encrypt c) (BlockSize c) (m_k1 m) (m_k2 m) (m_x m) (m_buf m))"
proof -
  from assms(2) have c: "m_c m = c" and pos: "0 < BlockSize c"
    and l1: "length (m_k1 m) = BlockSize c" and l2: "length (m_k2 m) = BlockSize c"
    and lx: "length (m_x m) = BlockSize c"
    and lb: "length (m_buf m) \<le> BlockSize c"
    by (auto simp: engine_inv_def)
  define l where "l = (if length (m_buf m) = BlockSize c then map2 (XOR) (m_buf m) (m_k1 m)
            else map2 (XOR) (pad_spec (BlockSize c) (m_buf m)) (m_k2 m))"
  have ll: "length l = BlockSize c"
    using l1 l2 lb by (auto simp: l_def length_pad_spec)
  have s: "Sum_last m = Inr l"
    by (simp add: Sum_last_wf [OF assms(2)] l_def)
  have x: "xor_assign_loop [0..<length l] l (m_x m) = Inr (map2 (XOR) l (m_x m))"
    using ll lx by (simp add: xor_assign_loop_full)
  have "length (map2 (XOR) l (m_x m)) = BlockSize c" using ll lx by simp
  then have e: "Encrypt c (map2 (XOR) l (m_x m)) = Inr (encrypt c (map2 (XOR) l (m_x m)))"
    by (rule cipher_wf_Encrypt [OF assms(1)])
  have f: "finalize_spec (encrypt c) (BlockSize c) (m_k1 m) (m_k2 m) (m_x m) (m_buf m) =
           encrypt c (map2 (XOR) l (m_x m))"
    by (simp add: finalize_spec_def Let_def l_def)
  show ?thesis
    by (simp add: Sum_def s x e c f)
qed

section \<open>Sequences of calls keep the invariant\<close>

lemma run_inv:
  assumes "cipher_wf c"
  shows "engine_inv c m \<Longrightarrow>
         \<exists>m'. run m ops = Some (Inr m') \<and> engine_inv c m' \<and>
              m_k1 m' = m_k1 m \<and> m_k2 m' = m_k2 m"
proof (induction ops arbitrary: m)
  case Nil
  then show ?case by simp
next
  case (Cons a ops)
  show ?case
  proof (cases a)
    case (OpWrite b)
    from Write_wf [OF assms Cons.prems, of b] obtain t where
      W: "Write m b =
           Some (Inr (m\<lparr>m_tmp := t,
                        m_x := fst (drain_spec (encrypt c) (BlockSize c) (m_x m) (m_buf m @ b)),
                        m_buf := snd (drain_spec (encrypt c) (BlockSize c) (m_x m) (m_buf m @ b))\<rparr>,
                      length b, None))"
      and t: "length t = BlockSize c" by blast
    from Cons.IH [OF engine_inv_Write [OF assms Cons.prems t, of "m_buf m @ b"]]
    show ?thesis by (simp add: OpWrite W)
  next
    case (OpSum b)
    from Cons.IH [OF Cons.prems] show ?thesis
      by (simp add: OpSum Sum_wf [OF assms Cons.prems])
  next
    case OpReset
    from Cons.IH [OF engine_inv_Reset [OF Cons.prems]] show ?thesis
      by (simp add: OpReset Reset_def)
  qed
qed

text \<open>Writes alone drain the concatenation of what was buffered and what was written.\<close>

lemma run_writes:
  assumes "cipher_wf c"
  shows "engine_inv c m \<Longrightarrow>
         \<exists>m'. run m (map OpWrite chunks) = Some (Inr m') \<and> engine_inv c m' \<and>
              m_k1 m' = m_k1 m \<and> m_k2 m' = m_k2 m \<and>
              m_x m' = fst (drain_spec (encrypt c) (BlockSize c) (m_x m) (m_buf m @ concat chunks)) \<and>
              m_buf m' = snd (drain_spec (encrypt c) (BlockSize c) (m_x m) (m_buf m @ concat chunks))"
proof (induction chunks arbitrary: m)
  case Nil
  then have "length (m_buf m) \<le> BlockSize c" by (simp add: engine_inv_def)
  with Nil show ?case by (simp add: drain_spec_small)
next
  case (Cons b chunks)
  from Write_wf [OF assms Cons.prems, of b] obtain t where
    W: "Write m b =
         Some (Inr (m\<lparr>m_tmp := t,
                      m_x := fst (drain_spec (encrypt c) (BlockSize c) (m_x m) (m_buf m @ b)),
                      m_buf := snd (drain_spec (encrypt c) (BlockSize c) (m_x m) (m_buf m @ b))\<rparr>,
                    length b, None))"
    and t: "length t = BlockSize c" by blast
  from Cons.IH [OF engine_inv_Write [OF assms Cons.prems t, of "m_buf m @ b"]]
  show ?case
    by (simp add: W drain_spec_append)
qed

text \<open>The length of what stays buffered, from the length of the message.\<close>

lemma pending_length:
  assumes "0 < bs"
  shows "n - bs * ((n - 1) div bs) = bs \<longleftrightarrow> n \<noteq> 0 \<and> n mod bs = (0::nat)"
proof (cases "n = 0")
  case True
  with assms show ?thesis by simp
next
  case False
  define q where "q = (n - 1) div bs"
  define r where "r = (n - 1) mod bs"
  have n: "n = bs * q + (r + 1)" using False by (simp add: q_def r_def)
  have r: "r < bs" using assms by (simp add: r_def)
  have "n mod bs = 0 \<longleftrightarrow> r + 1 = bs"
  proof
    assume "n mod bs = 0"
    then have "(r + 1) mod bs = 0" using n by simp
    then show "r + 1 = bs" using r
      by (cases "r + 1 = bs") simp_all
  next
    assume "r + 1 = bs"
    then show "n mod bs = 0" using n by simp
  qed
  moreover have "n - bs * ((n - 1) div bs) = r + 1"
    unfolding q_def [symmetric] using n by simp
  ultimately show ?thesis using False by simp
qed

section \<open>The example cipher and engine\<close>

lemma toy_cipher_wf: "cipher_wf toy_cipher"
  by (simp add: cipher_wf_def toy_cipher_def)

lemma toy_cipher_size: "BlockSize toy_cipher = 8"
  by (simp add: toy_cipher_def)

lemma toy_engine_inv: "engine_inv toy_cipher toy_engine"
  by (simp add: engine_inv_def toy_engine_def toy_cipher_def)

lemma toy_engine_tag:
  "finalize_spec (encrypt toy_cipher) (BlockSize toy_cipher) (m_k1 toy_engine) (m_k2 toy_engine)
     (m_x toy_engine) (m_buf toy_engine) = [113, 102, 99, 100, 97, 98, 239, 103]"
  by code_simp

lemma toy_engine_Sum:
  "Sum toy_engine b = Inr (toy_engine, b @ [113, 102, 99, 100, 97, 98, 239, 103])"
  by (simp add: Sum_wf [OF toy_cipher_wf toy_engine_inv] toy_engine_tag)

lemma run_append:
  "run m (ops1 @ ops2) =
     (case run m ops1 of
        None \<Rightarrow> None
      | Some (Inl e) \<Rightarrow> Some (Inl e)
      | Some (Inr m') \<Rightarrow> run m' ops2)"
proof (induction ops1 arbitrary: m)
  case Nil
  show ?case by simp
next
  case (Cons a ops1)
  show ?case
  proof (cases a)
    case (OpWrite b)
    then show ?thesis
      by (simp add: Cons.IH split: option.splits sum.splits prod.splits)
  next
    case (OpSum b)
    then show ?thesis
      by (simp add: Cons.IH split: option.splits sum.splits prod.splits)
  next
    case OpReset
    then show ?thesis by (simp add: Cons.IH)
  qed
qed

lemma last_block_div:
  assumes "0 < bs" and "0 < k"
  shows "(k * bs - 1) div bs = k - (1::nat)"
proof -
  obtain j where k: "k = Suc j" using assms(2) by (cases k) auto
  obtain i where bs: "bs = Suc i" using assms(1) by (cases bs) auto
  have "k * bs - 1 = i + j * bs" by (simp add: k bs)
  also have "\<dots> div bs = j + i div bs" by (simp add: bs del: mult_Suc_right)
  also have "i div bs = 0" by (simp add: bs)
  finally show ?thesis by (simp add: k)
qed

section \<open>The cursor-based engine\<close>

lemma zero_loop_append:
  "zero_loop (as @ bs) buf x =
     (case zero_loop as buf x of Inl e \<Rightarrow> Inl e | Inr (buf', x') \<Rightarrow> zero_loop bs buf' x')"
  by (induction as arbitrary: buf x) simp_all

lemma zero_loop_prefix:
  "k \<le> length buf \<Longrightarrow> k \<le> length x \<Longrightarrow>
   zero_loop [0..<k] buf x = Inr (replicate k 0 @ drop k buf, replicate k 0 @ drop k x)"
proof (induction k)
  case 0
  then show ?case by simp
next
  case (Suc k)
  have "(replicate k 0 @ drop k l)[k := 0] = replicate (Suc k) 0 @ drop (Suc k) l"
    if "Suc k \<le> length l" for l :: bytes
    using that
    by (intro nth_equalityI)
       (auto simp: nth_append nth_list_update less_Suc_eq simp del: replicate.simps)
  with Suc show ?case by (simp add: zero_loop_append del: replicate.simps)
qed

lemma copy_loop_append:
  "copy_loop (as @ bs) dst src =
     (case copy_loop as dst src of Inl e \<Rightarrow> Inl e | Inr dst' \<Rightarrow> copy_loop bs dst' src)"
  by (induction as arbitrary: dst) simp_all

lemma copy_loop_range:
  "lo \<le> hi \<Longrightarrow> hi \<le> length dst \<Longrightarrow> hi \<le> length src \<Longrightarrow>
   copy_loop [lo..<hi] dst src =
     Inr (map (\<lambda>j. if lo \<le> j \<and> j < hi then src ! j else dst ! j) [0..<length dst])"
proof (induction hi)
  case 0
  then show ?case by (simp add: map_nth)
next
  case (Suc hi)
  show ?case
  proof (cases "lo = Suc hi")
    case True
    have "map (\<lambda>j. if Suc hi \<le> j \<and> j < Suc hi then src ! j else dst ! j) [0..<length dst] = dst"
      by (intro nth_equalityI) auto
    with True show ?thesis by simp
  next
    case False
    with Suc.prems have le: "lo \<le> hi" by simp
    have "(map (\<lambda>j. if lo \<le> j \<and> j < hi then src ! j else dst ! j) [0..<length dst])[hi := src ! hi] =
          map (\<lambda>j. if lo \<le> j \<and> j < Suc hi then src ! j else dst ! j) [0..<length dst]"
      using Suc.prems le
      by (intro nth_equalityI) (auto simp: nth_list_update less_Suc_eq)
    with Suc le show ?thesis by (simp add: copy_loop_append)
  qed
qed

lemma map2_xor_commute: "map2 (XOR) a b = map2 (XOR) b (a :: bytes)"
  by (intro nth_equalityI) (simp_all add: xor.commute)

lemma NewWithCipher_cursor_wf:
  assumes "cipher_wf c" and "BlockSize c = 8 \<or> BlockSize c = 16"
  shows "NewWithCipher_cursor c =
           Inr (Inr \<lparr>s_c = c, s_k1 = K1_of c, s_k2 = K2_of c, s_buf = zeros (BlockSize c),
                     s_x = zeros (BlockSize c), s_scratch = [], s_cursor = 0\<rparr>)"
proof -
  have "zero_loop [0..<BlockSize c] (zeros (BlockSize c)) (zeros (BlockSize c)) =
          Inr (zeros (BlockSize c), zeros (BlockSize c))"
    by (simp add: zero_loop_prefix zeros_def)
  then show ?thesis
    using assms(2)
    by (auto simp add: NewWithCipher_cursor_def newcmac_cursor_def gensubkeys_wf [OF assms]
        Reset_cursor_def K1_of_def K2_of_def)
qed

lemma cursor_inv_init:
  assumes "cipher_wf c" and "BlockSize c = 8 \<or> BlockSize c = 16"
  shows "cursor_inv c \<lparr>s_c = c, s_k1 = K1_of c, s_k2 = K2_of c, s_buf = zeros (BlockSize c),
                     s_x = zeros (BlockSize c), s_scratch = [], s_cursor = 0\<rparr>"
  using assms by (simp add: cursor_inv_def length_K1_of length_K2_of zeros_def)

text \<open>
  The loop of the cursor-based \<^verbatim>\<open>Write\<close> is entered with a full buffer whenever input
  remains; it drains as the append-based loop does.
\<close>

lemma Write_cursor_loop_wf:
  assumes "cipher_wf c"
  shows "cursor_inv c s \<Longrightarrow> (b \<noteq> [] \<longrightarrow> s_cursor s = BlockSize c) \<Longrightarrow>
         \<exists>s'. Write_cursor_loop s b = Some (Inr s') \<and> cursor_inv c s' \<and>
              s_k1 s' = s_k1 s \<and> s_k2 s' = s_k2 s \<and>
              s_x s' = fst (drain_spec (encrypt c) (BlockSize c) (s_x s)
                              (take (s_cursor s) (s_buf s) @ b)) \<and>
              take (s_cursor s') (s_buf s') =
                snd (drain_spec (encrypt c) (BlockSize c) (s_x s)
                       (take (s_cursor s) (s_buf s) @ b))"
proof (induction "length b" arbitrary: s b rule: less_induct)
  case less
  from less.prems(1) have c: "s_c s = c" and pos: "0 < BlockSize c"
    and lx: "length (s_x s) = BlockSize c" and lb: "length (s_buf s) = BlockSize c"
    and cur: "s_cursor s \<le> BlockSize c"
    by (auto simp: cursor_inv_def)
  show ?case
  proof (cases "b = []")
    case True
    have "Write_cursor_loop s b = Some (Inr s)"
      by (subst Write_cursor_loop.simps) (simp add: True)
    moreover have "drain_spec (encrypt c) (BlockSize c) (s_x s) (take (s_cursor s) (s_buf s) @ b) =
        (s_x s, take (s_cursor s) (s_buf s))"
      using cur lb by (simp add: True drain_spec_small)
    ultimately show ?thesis using less.prems(1) by simp
  next
    case False
    with less.prems(2) have full: "s_cursor s = BlockSize c" by simp
    define buf1 where "buf1 = map2 (XOR) (s_buf s) (s_x s)"
    define n where "n = min (BlockSize c) (length b)"
    define s1 where "s1 = s\<lparr>s_buf := take n b @ drop n buf1, s_x := encrypt c buf1, s_cursor := n\<rparr>"
    have l1: "length buf1 = BlockSize c" by (simp add: buf1_def lx lb)
    have X: "xor_assign_loop [0..<length (s_buf s)] (s_buf s) (s_x s) = Inr buf1"
      using lx lb by (simp add: xor_assign_loop_full buf1_def)
    have E: "Encrypt c buf1 = Inr (encrypt c buf1)"
      by (rule cipher_wf_Encrypt [OF assms l1])
    have cp: "copy_go buf1 b = (take n b @ drop n buf1, n)"
      by (simp add: copy_go_def Let_def n_def l1)
    have W: "Write_cursor_loop s b = Write_cursor_loop s1 (drop n b)"
      using False by (subst Write_cursor_loop.simps) (simp add: X c E cp s1_def)
    have npos: "0 < n" using pos False by (simp add: n_def)
    have inv1: "cursor_inv c s1"
      using less.prems(1) l1
      by (auto simp: cursor_inv_def s1_def n_def cipher_wf_length [OF assms])
    have rest: "drop n b \<noteq> [] \<longrightarrow> s_cursor s1 = BlockSize c"
      by (auto simp: s1_def n_def)
    have shorter: "length (drop n b) < length b" using npos False by simp
    have tk: "take (s_cursor s1) (s_buf s1) @ drop n b = b"
      by (simp add: s1_def n_def)
    from less.hyps [OF shorter inv1 rest] obtain s' where
      r: "Write_cursor_loop s1 (drop n b) = Some (Inr s')" and i': "cursor_inv c s'"
      and k: "s_k1 s' = s_k1 s1" "s_k2 s' = s_k2 s1"
      and x': "s_x s' = fst (drain_spec (encrypt c) (BlockSize c) (s_x s1)
                              (take (s_cursor s1) (s_buf s1) @ drop n b))"
      and b': "take (s_cursor s') (s_buf s') =
                snd (drain_spec (encrypt c) (BlockSize c) (s_x s1)
                       (take (s_cursor s1) (s_buf s1) @ drop n b))"
      by blast
    have D: "drain_spec (encrypt c) (BlockSize c) (s_x s) (take (s_cursor s) (s_buf s) @ b) =
             drain_spec (encrypt c) (BlockSize c) (encrypt c buf1) b"
      using False pos lb
      by (subst drain_spec.simps) (simp add: full buf1_def map2_xor_commute [of "s_x s"])
    show ?thesis
      using r i' k x' b' unfolding tk W D
      by (intro exI [of _ s']) (simp add: s1_def)
  qed
qed

lemma Write_cursor_wf:
  assumes "cipher_wf c" and "cursor_inv c s"
  shows "\<exists>s'. Write_cursor s b = Some (Inr (s', length b, None)) \<and> cursor_inv c s' \<and>
              s_k1 s' = s_k1 s \<and> s_k2 s' = s_k2 s \<and>
              s_x s' = fst (drain_spec (encrypt c) (BlockSize c) (s_x s)
                              (take (s_cursor s) (s_buf s) @ b)) \<and>
              take (s_cursor s') (s_buf s') =
                snd (drain_spec (encrypt c) (BlockSize c) (s_x s)
                       (take (s_cursor s) (s_buf s) @ b))"
proof -
  from assms(2) have lb: "length (s_buf s) = BlockSize c" and cur: "s_cursor s \<le> BlockSize c"
    by (auto simp: cursor_inv_def)
  define n where "n = min (BlockSize c - s_cursor s) (length b)"
  define s1 where
    "s1 = s\<lparr>s_buf := take (s_cursor s) (s_buf s) @ take n b @ drop n (drop (s_cursor s) (s_buf s)),
            s_cursor := s_cursor s + n\<rparr>"
  have cp: "copy_go (drop (s_cursor s) (s_buf s)) b =
              (take n b @ drop n (drop (s_cursor s) (s_buf s)), n)"
    by (simp add: copy_go_def Let_def n_def lb)
  have inv1: "cursor_inv c s1"
    using assms(2) by (auto simp: cursor_inv_def s1_def n_def)
  have rest: "drop n b \<noteq> [] \<longrightarrow> s_cursor s1 = BlockSize c"
    using cur by (auto simp: s1_def n_def)
  have tk: "take (s_cursor s1) (s_buf s1) @ drop n b = take (s_cursor s) (s_buf s) @ b"
  proof -
    have "take (s_cursor s1) (s_buf s1) = take (s_cursor s) (s_buf s) @ take n b"
      using cur lb by (simp add: s1_def n_def)
    then show ?thesis by simp
  qed
  from Write_cursor_loop_wf [OF assms(1) inv1 rest] obtain s' where
    r: "Write_cursor_loop s1 (drop n b) = Some (Inr s')" and i': "cursor_inv c s'"
    and k: "s_k1 s' = s_k1 s1" "s_k2 s' = s_k2 s1"
    and x': "s_x s' = fst (drain_spec (encrypt c) (BlockSize c) (s_x s1)
                            (take (s_cursor s1) (s_buf s1) @ drop n b))"
    and b': "take (s_cursor s') (s_buf s') =
              snd (drain_spec (encrypt c) (BlockSize c) (s_x s1)
                     (take (s_cursor s1) (s_buf s1) @ drop n b))"
    by blast
  have W: "Write_cursor s b = Some (Inr (s', length b, None))"
    using cur lb r by (simp add: Write_cursor_def Let_def cp s1_def)
  show ?thesis
    using W i' k x' b' unfolding tk
    by (intro exI [of _ s']) (simp add: s1_def)
qed

lemma write_all_cursor_wf:
  assumes "cipher_wf c"
  shows "cursor_inv c s \<Longrightarrow>
         \<exists>s'. write_all_cursor s chunks = Some (Inr s') \<and> cursor_inv c s' \<and>
              s_k1 s' = s_k1 s \<and> s_k2 s' = s_k2 s \<and>
              s_x s' = fst (drain_spec (encrypt c) (BlockSize c) (s_x s)
                              (take (s_cursor s) (s_buf s) @ concat chunks)) \<and>
              take (s_cursor s') (s_buf s') =
                snd (drain_spec (encrypt c) (BlockSize c) (s_x s)
                       (take (s_cursor s) (s_buf s) @ concat chunks))"
proof (induction chunks arbitrary: s)
  case Nil
  then have "length (take (s_cursor s) (s_buf s)) \<le> BlockSize c"
    by (simp add: cursor_inv_def)
  with Nil show ?case by (simp add: drain_spec_small)
next
  case (Cons b chunks)
  from Write_cursor_wf [OF assms Cons.prems, of b] obtain s1 where
    W: "Write_cursor s b = Some (Inr (s1, length b, None))" and i1: "cursor_inv c s1"
    and k: "s_k1 s1 = s_k1 s" "s_k2 s1 = s_k2 s"
    and x1: "s_x s1 = fst (drain_spec (encrypt c) (BlockSize c) (s_x s)
                            (take (s_cursor s) (s_buf s) @ b))"
    and b1: "take (s_cursor s1) (s_buf s1) =
              snd (drain_spec (encrypt c) (BlockSize c) (s_x s)
                     (take (s_cursor s) (s_buf s) @ b))"
    by blast
  from Cons.IH [OF i1] show ?case
    by (simp add: W k x1 b1 drain_spec_append)
qed

lemma Sum_cursor_scratch_wf:
  assumes "cursor_inv c s"
  shows "Sum_cursor_scratch s (zeros (BlockSize c)) =
           Inr (if length (take (s_cursor s) (s_buf s)) = BlockSize c
                then map2 (XOR) (take (s_cursor s) (s_buf s)) (s_k1 s)
                else map2 (XOR) (pad_spec (BlockSize c) (take (s_cursor s) (s_buf s))) (s_k2 s))"
proof -
  from assms have c: "s_c s = c" and pos: "0 < BlockSize c"
    and l1: "length (s_k1 s) = BlockSize c" and l2: "length (s_k2 s) = BlockSize c"
    and lb: "length (s_buf s) = BlockSize c" and cur: "s_cursor s \<le> BlockSize c"
    by (auto simp: cursor_inv_def)
  show ?thesis
  proof (cases "s_cursor s = BlockSize c")
    case True
    then show ?thesis
      using l1 lb by (simp add: Sum_cursor_scratch_def c zeros_def xor_loop_full)
  next
    case False
    with cur have lt: "s_cursor s < BlockSize c" by simp
    let ?k = "s_cursor s"
    define sc1 where
      "sc1 = map2 (XOR) (take ?k (s_buf s)) (take ?k (s_k2 s)) @ drop ?k (zeros (BlockSize c))"
    have X: "xor_loop [0..<s_cursor s] (zeros (BlockSize c)) (s_buf s) (s_k2 s) = Inr sc1"
      using lt lb l2 by (simp add: xor_loop_prefix zeros_def sc1_def)
    have ls: "length sc1 = BlockSize c"
      using lt lb l2 by (simp add: sc1_def zeros_def)
    have C: "copy_loop [?k + 1..<length (s_buf s)] (sc1[?k := 0x80 XOR (s_k2 s ! ?k)]) (s_k2 s) =
          Inr (map (\<lambda>j. if ?k + 1 \<le> j \<and> j < BlockSize c then s_k2 s ! j
                        else (sc1[?k := 0x80 XOR (s_k2 s ! ?k)]) ! j) [0..<BlockSize c])"
      using lt ls l2 lb by (subst copy_loop_range) simp_all
    have R: "map (\<lambda>j. if ?k + 1 \<le> j \<and> j < BlockSize c then s_k2 s ! j
                        else (sc1[?k := 0x80 XOR (s_k2 s ! ?k)]) ! j) [0..<BlockSize c] =
             map2 (XOR) (pad_spec (BlockSize c) (take ?k (s_buf s))) (s_k2 s)"
      using lt lb l2 ls
      by (intro nth_equalityI)
         (auto simp: sc1_def pad_spec_def zeros_def nth_append nth_list_update nth_Cons'
            min_def)
    have "Sum_cursor_scratch s (zeros (BlockSize c)) =
            Inr (map2 (XOR) (pad_spec (BlockSize c) (take ?k (s_buf s))) (s_k2 s))"
      unfolding Sum_cursor_scratch_def c
      using False lt l2 ls by (simp only: X sum.case C R if_False if_True simp_thms)
    then show ?thesis
      using lt lb by simp
  qed
qed

lemma Sum_cursor_wf:
  assumes "cipher_wf c" and "cursor_inv c s"
  shows "Sum_cursor s b =
           Inr (s, b @ finalize_spec (encrypt c) (BlockSize c) (s_k1 s) (s_k2 s) (s_x s)
                         (take (s_cursor s) (s_buf s)))"
proof -
  from assms(2) have c: "s_c s = c" and bs: "BlockSize c = 8 \<or> BlockSize c = 16"
    and l1: "length (s_k1 s) = BlockSize c" and l2: "length (s_k2 s) = BlockSize c"
    and lx: "length (s_x s) = BlockSize c"
    and lb: "length (s_buf s) = BlockSize c" and cur: "s_cursor s \<le> BlockSize c"
    by (auto simp: cursor_inv_def)
  define p where "p = take (s_cursor s) (s_buf s)"
  define l where "l = (if length p = BlockSize c then map2 (XOR) p (s_k1 s)
            else map2 (XOR) (pad_spec (BlockSize c) p) (s_k2 s))"
  have lp: "length p \<le> BlockSize c" using cur lb by (simp add: p_def)
  have ll: "length l = BlockSize c"
    using l1 l2 lp by (auto simp: l_def length_pad_spec)
  have sc: "Sum_cursor_scratch s (zeros (BlockSize c)) = Inr l"
    by (simp add: Sum_cursor_scratch_wf [OF assms(2)] l_def p_def)
  have x: "xor_assign_loop [0..<length l] l (s_x s) = Inr (map2 (XOR) l (s_x s))"
    using ll lx by (simp add: xor_assign_loop_full)
  have "length (map2 (XOR) l (s_x s)) = BlockSize c" using ll lx by simp
  then have e: "Encrypt c (map2 (XOR) l (s_x s)) = Inr (encrypt c (map2 (XOR) l (s_x s)))"
    by (rule cipher_wf_Encrypt [OF assms(1)])
  have f: "finalize_spec (encrypt c) (BlockSize c) (s_k1 s) (s_k2 s) (s_x s) p =
           encrypt c (map2 (XOR) l (s_x s))"
    by (simp add: finalize_spec_def Let_def l_def)
  show ?thesis
    using bs by (simp add: Sum_cursor_def c sc x e f [unfolded p_def])
qed

section \<open>The claims\<close>

text \<open>
  C1. In every state reached from construction by \<^verbatim>\<open>Write\<close> calls (and, more generally,
  by any calls), \<^verbatim>\<open>Sum\<close> returns the tag of the finalization rule: a buffer of exactly
  one block is XORed with K1, a shorter one is padded with \<open>0x80\<close> and zeros and XORed
  with K2, and the tag is the encryption of that XORed with the chaining value. The
  buffer is never longer than a block, and after writes to a fresh engine it is a full
  block exactly when the message is non-empty and block-aligned.
\<close>

theorem Sum_finalization:
  assumes "cipher_wf c" and "BlockSize c = 8 \<or> BlockSize c = 16"
  shows "\<exists>m0. NewWithCipher c = Inr (Inr m0) \<and>
           (\<exists>m. run m0 ops = Some (Inr m) \<and>
                length (m_buf m) \<le> BlockSize c \<and>
                Sum m b =
                  Inr (m, b @ finalize_spec (encrypt c) (BlockSize c) (m_k1 m) (m_k2 m)
                               (m_x m) (m_buf m))) \<and>
           (\<exists>m. run m0 (map OpWrite chunks) = Some (Inr m) \<and>
                (length (m_buf m) = BlockSize c \<longleftrightarrow>
                   concat chunks \<noteq> [] \<and> length (concat chunks) mod BlockSize c = 0))"
proof -
  let ?m0 = "\<lparr>m_c = c, m_k1 = K1_of c, m_k2 = K2_of c, m_buf = [],
              m_x = zeros (BlockSize c), m_tmp = zeros (BlockSize c)\<rparr>"
  note N = NewWithCipher_wf [OF assms]
  note I = engine_inv_init [OF assms]
  from assms(2) have pos: "0 < BlockSize c" by auto
  from run_inv [OF assms(1) I, of ops] obtain m where
    m: "run ?m0 ops = Some (Inr m)" and inv: "engine_inv c m" by blast
  from inv have lb: "length (m_buf m) \<le> BlockSize c" by (simp add: engine_inv_def)
  note S = Sum_wf [OF assms(1) inv, of b]
  define msg where "msg = concat chunks"
  from run_writes [OF assms(1) I, of chunks] obtain m' where
    m': "run ?m0 (map OpWrite chunks) = Some (Inr m')"
    and buf0: "m_buf m' = snd (drain_spec (encrypt c) (BlockSize c) (m_x ?m0)
                                 (m_buf ?m0 @ concat chunks))"
    by blast
  from buf0 have buf: "m_buf m' = drop (BlockSize c * ((length msg - 1) div BlockSize c)) msg"
    by (simp add: drain_spec_snd msg_def)
  have "length (m_buf m') = length msg - BlockSize c * ((length msg - 1) div BlockSize c)"
    unfolding buf by (rule length_drop)
  also have "\<dots> = BlockSize c \<longleftrightarrow> length msg \<noteq> 0 \<and> length msg mod BlockSize c = 0"
    by (rule pending_length [OF pos])
  finally have "length (m_buf m') = BlockSize c \<longleftrightarrow>
      concat chunks \<noteq> [] \<and> length (concat chunks) mod BlockSize c = 0"
    unfolding msg_def by (simp only: length_0_conv)
  with m' m lb S show ?thesis
    unfolding N by (intro exI [of _ ?m0] conjI exI [of _ m] exI [of _ m'] refl)
qed

theorem Sum_finalization_witness:
  "cipher_wf toy_cipher \<and> (BlockSize toy_cipher = 8 \<or> BlockSize toy_cipher = 16) \<and>
   (\<exists>m0. NewWithCipher toy_cipher = Inr (Inr m0) \<and>
      (\<exists>m. run m0 [OpWrite [1, 2, 3], OpReset, OpWrite [1, 2, 3, 4, 5, 6, 7, 8, 9]] = Some (Inr m) \<and>
           length (m_buf m) \<le> BlockSize toy_cipher \<and>
           Sum m [5] =
             Inr (m, [5] @ finalize_spec (encrypt toy_cipher) (BlockSize toy_cipher) (m_k1 m)
                          (m_k2 m) (m_x m) (m_buf m))) \<and>
      (\<exists>m. run m0 (map OpWrite [[1, 2, 3], [4, 5, 6, 7, 8]]) = Some (Inr m) \<and>
           (length (m_buf m) = BlockSize toy_cipher \<longleftrightarrow>
              concat [[1, 2, 3], [4, 5, 6, 7, 8 :: byte]] \<noteq> [] \<and>
              length (concat [[1, 2, 3], [4, 5, 6, 7, 8 :: byte]]) mod BlockSize toy_cipher = 0)))"
proof -
  have b: "BlockSize toy_cipher = 8 \<or> BlockSize toy_cipher = 16"
    by (simp add: toy_cipher_size)
  show ?thesis
    by (intro conjI) (rule toy_cipher_wf, rule b, rule Sum_finalization [OF toy_cipher_wf b])
qed

text \<open>
  C2. In every reachable state \<^verbatim>\<open>Write\<close> returns the length of its input and no error,
  and leaves the chaining value and the buffer that append-then-drain gives: the input is
  appended to the buffer and, while more than one block is held, the front block is
  folded into X by X = encrypt(X XOR block). A message whose length is a positive
  multiple of the block size leaves its last full block in the buffer.
\<close>

theorem Write_drains:
  assumes "cipher_wf c" and "BlockSize c = 8 \<or> BlockSize c = 16"
  shows "\<exists>m0. NewWithCipher c = Inr (Inr m0) \<and>
           (\<exists>m t. run m0 ops = Some (Inr m) \<and>
              Write m b =
                Some (Inr (m\<lparr>m_tmp := t,
                             m_x := fst (drain_spec (encrypt c) (BlockSize c) (m_x m) (m_buf m @ b)),
                             m_buf := snd (drain_spec (encrypt c) (BlockSize c) (m_x m) (m_buf m @ b))\<rparr>,
                           length b, None))) \<and>
           (\<exists>m. run m0 (map OpWrite chunks) = Some (Inr m) \<and>
              (0 < k \<and> length (concat chunks) = k * BlockSize c \<longrightarrow>
                 m_buf m = drop ((k - 1) * BlockSize c) (concat chunks) \<and>
                 length (m_buf m) = BlockSize c))"
proof -
  let ?m0 = "\<lparr>m_c = c, m_k1 = K1_of c, m_k2 = K2_of c, m_buf = [],
              m_x = zeros (BlockSize c), m_tmp = zeros (BlockSize c)\<rparr>"
  note N = NewWithCipher_wf [OF assms]
  note I = engine_inv_init [OF assms]
  from assms(2) have pos: "0 < BlockSize c" by auto
  from run_inv [OF assms(1) I, of ops] obtain m where
    m: "run ?m0 ops = Some (Inr m)" and inv: "engine_inv c m" by blast
  from Write_wf [OF assms(1) inv, of b] obtain t where
    W: "Write m b =
          Some (Inr (m\<lparr>m_tmp := t,
                       m_x := fst (drain_spec (encrypt c) (BlockSize c) (m_x m) (m_buf m @ b)),
                       m_buf := snd (drain_spec (encrypt c) (BlockSize c) (m_x m) (m_buf m @ b))\<rparr>,
                     length b, None))"
    by blast
  define msg where "msg = concat chunks"
  from run_writes [OF assms(1) I, of chunks] obtain m' where
    m': "run ?m0 (map OpWrite chunks) = Some (Inr m')"
    and buf0: "m_buf m' = snd (drain_spec (encrypt c) (BlockSize c) (m_x ?m0)
                                 (m_buf ?m0 @ concat chunks))"
    by blast
  from buf0 have buf: "m_buf m' = drop (BlockSize c * ((length msg - 1) div BlockSize c)) msg"
    by (simp add: drain_spec_snd msg_def)
  have L: "m_buf m' = drop ((k - 1) * BlockSize c) msg \<and> length (m_buf m') = BlockSize c"
    if k: "0 < k" and len: "length msg = k * BlockSize c"
  proof -
    have d: "(length msg - 1) div BlockSize c = k - 1"
      unfolding len by (rule last_block_div [OF pos k])
    have 1: "m_buf m' = drop ((k - 1) * BlockSize c) msg"
      unfolding buf d by (simp add: mult.commute)
    have "length (m_buf m') = k * BlockSize c - (k - 1) * BlockSize c"
      unfolding 1 by (simp add: len)
    also have "\<dots> = BlockSize c"
      using k by (cases k) simp_all
    finally show ?thesis using 1 by simp
  qed
  have B: "0 < k \<and> length (concat chunks) = k * BlockSize c \<longrightarrow>
                 m_buf m' = drop ((k - 1) * BlockSize c) (concat chunks) \<and>
                 length (m_buf m') = BlockSize c"
    using L unfolding msg_def by blast
  show ?thesis
    unfolding N
    by (intro exI [of _ ?m0] conjI exI [of _ m] exI [of _ m'] exI [of _ t] refl m W m' B)
qed

theorem Write_drains_witness:
  "cipher_wf toy_cipher \<and> (BlockSize toy_cipher = 8 \<or> BlockSize toy_cipher = 16) \<and>
   (\<exists>m0. NewWithCipher toy_cipher = Inr (Inr m0) \<and>
      (\<exists>m t. run m0 [OpWrite [1, 2, 3], OpSum []] = Some (Inr m) \<and>
         Write m [4, 5, 6, 7, 8, 9, 10, 11, 12, 13, 14, 15, 16] =
           Some (Inr (m\<lparr>m_tmp := t,
                        m_x := fst (drain_spec (encrypt toy_cipher) (BlockSize toy_cipher) (m_x m)
                                      (m_buf m @ [4, 5, 6, 7, 8, 9, 10, 11, 12, 13, 14, 15, 16])),
                        m_buf := snd (drain_spec (encrypt toy_cipher) (BlockSize toy_cipher) (m_x m)
                                      (m_buf m @ [4, 5, 6, 7, 8, 9, 10, 11, 12, 13, 14, 15, 16]))\<rparr>,
                      length [4, 5, 6, 7, 8, 9, 10, 11, 12, 13, 14, 15, 16 :: byte], None))) \<and>
      (\<exists>m. run m0 (map OpWrite [[1, 2, 3], [4, 5, 6, 7, 8, 9, 10, 11, 12, 13, 14, 15, 16]]) =
              Some (Inr m) \<and>
         m_buf m = [9, 10, 11, 12, 13, 14, 15, 16] \<and> length (m_buf m) = BlockSize toy_cipher)) \<and>
   drain_spec (encrypt toy_cipher) 8 (zeros 8) [1, 2, 3, 4, 5, 6, 7, 8, 9, 10, 11, 12, 13, 14, 15, 16] =
     ([153, 152, 151, 150, 149, 148, 147, 146], [9, 10, 11, 12, 13, 14, 15, 16])"
proof -
  have b: "BlockSize toy_cipher = 8 \<or> BlockSize toy_cipher = 16"
    by (simp add: toy_cipher_size)
  let ?chunks = "[[1, 2, 3], [4, 5, 6, 7, 8, 9, 10, 11, 12, 13, 14, 15, 16 :: byte]]"
  from Write_drains [OF toy_cipher_wf b, of "[OpWrite [1, 2, 3], OpSum []]"
      "[4, 5, 6, 7, 8, 9, 10, 11, 12, 13, 14, 15, 16]" ?chunks 2]
  obtain m0 where N: "NewWithCipher toy_cipher = Inr (Inr m0)"
    and A: "\<exists>m t. run m0 [OpWrite [1, 2, 3], OpSum []] = Some (Inr m) \<and>
         Write m [4, 5, 6, 7, 8, 9, 10, 11, 12, 13, 14, 15, 16] =
           Some (Inr (m\<lparr>m_tmp := t,
                        m_x := fst (drain_spec (encrypt toy_cipher) (BlockSize toy_cipher) (m_x m)
                                      (m_buf m @ [4, 5, 6, 7, 8, 9, 10, 11, 12, 13, 14, 15, 16])),
                        m_buf := snd (drain_spec (encrypt toy_cipher) (BlockSize toy_cipher) (m_x m)
                                      (m_buf m @ [4, 5, 6, 7, 8, 9, 10, 11, 12, 13, 14, 15, 16]))\<rparr>,
                      length [4, 5, 6, 7, 8, 9, 10, 11, 12, 13, 14, 15, 16 :: byte], None))"
    and B: "\<exists>m. run m0 (map OpWrite ?chunks) = Some (Inr m) \<and>
              (0 < (2::nat) \<and> length (concat ?chunks) = 2 * BlockSize toy_cipher \<longrightarrow>
                 m_buf m = drop ((2 - 1) * BlockSize toy_cipher) (concat ?chunks) \<and>
                 length (m_buf m) = BlockSize toy_cipher)"
    by blast
  from B obtain m where r: "run m0 (map OpWrite ?chunks) = Some (Inr m)"
    and i: "0 < (2::nat) \<and> length (concat ?chunks) = 2 * BlockSize toy_cipher \<longrightarrow>
                 m_buf m = drop ((2 - 1) * BlockSize toy_cipher) (concat ?chunks) \<and>
                 length (m_buf m) = BlockSize toy_cipher"
    by blast
  from i have "m_buf m = [9, 10, 11, 12, 13, 14, 15, 16] \<and> length (m_buf m) = BlockSize toy_cipher"
    by (simp add: toy_cipher_size)
  with r have B': "\<exists>m. run m0 (map OpWrite ?chunks) = Some (Inr m) \<and>
         m_buf m = [9, 10, 11, 12, 13, 14, 15, 16] \<and> length (m_buf m) = BlockSize toy_cipher"
    by blast
  have d: "drain_spec (encrypt toy_cipher) 8 (zeros 8) [1, 2, 3, 4, 5, 6, 7, 8, 9, 10, 11, 12, 13, 14, 15, 16] =
     ([153, 152, 151, 150, 149, 148, 147, 146], [9, 10, 11, 12, 13, 14, 15, 16])"
    by code_simp
  note C = conjI [OF N conjI [OF A B']]
  show ?thesis
    by (intro conjI) (rule toy_cipher_wf, rule b, rule exI [of _ m0], rule C, rule d)
qed

text \<open>
  C3. Subkey derivation encrypts the all-zero block to L and returns K1 = double(L) and
  K2 = double(K1); \<^verbatim>\<open>gensubkey\<close> is the doubling of the specification (the left shift
  by one bit across the bytes, then the constant XORed into the last byte exactly when
  the top bit of the original was set), with the constant 0x87 for 16-byte and 0x1b for
  8-byte blocks. \<^verbatim>\<open>shifted\<close> fills each byte's low bit from the high bit of the next
  byte; on the big-endian value of the sequence it is doubling with the top bit lost.
\<close>

theorem gensubkeys_derivation:
  assumes "cipher_wf c" and "BlockSize c = 8 \<or> BlockSize c = 16"
  shows "(\<exists>L. Encrypt c (zeros (BlockSize c)) = Inr L \<and>
            gensubkeys c =
              Inr (double_spec (Rb_spec (BlockSize c)) L,
                   double_spec (Rb_spec (BlockSize c)) (double_spec (Rb_spec (BlockSize c)) L))) \<and>
         Rb_spec 16 = 0x87 \<and> Rb_spec 8 = 0x1b \<and>
         (\<forall>v rb. v \<noteq> [] \<longrightarrow> gensubkey c v rb = Inr (double_spec rb v)) \<and>
         (\<forall>v. shifted v = shift_left_spec v \<and>
              be_nat (shifted v) = (2 * be_nat v) mod 256 ^ length v)"
proof -
  have "length (zeros (BlockSize c)) = BlockSize c" by (simp add: zeros_def)
  then have "Encrypt c (zeros (BlockSize c)) = Inr (encrypt c (zeros (BlockSize c)))"
    by (rule cipher_wf_Encrypt [OF assms(1)])
  with gensubkeys_wf [OF assms] show ?thesis
    by (simp add: Rb_spec_def gensubkey_eq_spec shifted_eq_spec be_nat_shift_left_spec)
qed

theorem gensubkeys_derivation_witness:
  "cipher_wf toy_cipher \<and> (BlockSize toy_cipher = 8 \<or> BlockSize toy_cipher = 16) \<and>
   Encrypt toy_cipher (zeros 8) = Inr [145, 145, 145, 145, 145, 145, 145, 145] \<and>
   double_spec 0x1b [145, 145, 145, 145, 145, 145, 145, 145] = [35, 35, 35, 35, 35, 35, 35, 57] \<and>
   double_spec 0x1b [35, 35, 35, 35, 35, 35, 35, 57] = [70, 70, 70, 70, 70, 70, 70, 114] \<and>
   gensubkeys toy_cipher = Inr ([35, 35, 35, 35, 35, 35, 35, 57], [70, 70, 70, 70, 70, 70, 70, 114]) \<and>
   shifted [0x80, 0x01, 0xff] = [0x00, 0x03, 0xfe] \<and>
   be_nat (shifted [0x80, 0x01, 0xff]) = (2 * be_nat [0x80, 0x01, 0xff]) mod 256 ^ 3"
proof -
  have b: "BlockSize toy_cipher = 8 \<or> BlockSize toy_cipher = 16"
    by (simp add: toy_cipher_size)
  have e: "Encrypt toy_cipher (zeros 8) = Inr [145, 145, 145, 145, 145, 145, 145, 145]"
    by code_simp
  have d1: "double_spec 0x1b [145, 145, 145, 145, 145, 145, 145, 145] = [35, 35, 35, 35, 35, 35, 35, 57]"
    by code_simp
  have d2: "double_spec 0x1b [35, 35, 35, 35, 35, 35, 35, 57] = [70, 70, 70, 70, 70, 70, 70, 114]"
    by code_simp
  from gensubkeys_derivation [OF toy_cipher_wf b]
  have "gensubkeys toy_cipher = Inr ([35, 35, 35, 35, 35, 35, 35, 57], [70, 70, 70, 70, 70, 70, 70, 114])"
    by (simp add: toy_cipher_size e d1 d2)
  moreover have "shifted [0x80, 0x01, 0xff] = [0x00, 0x03, 0xfe]"
    by code_simp
  moreover have "be_nat (shifted [0x80, 0x01, 0xff]) = (2 * be_nat [0x80, 0x01, 0xff]) mod 256 ^ 3"
  proof -
    have len: "length [0x80, 0x01, 0xff :: byte] = 3" by simp
    note G = gensubkeys_derivation [OF toy_cipher_wf b]
    note B = G [THEN conjunct2, THEN conjunct2, THEN conjunct2, THEN conjunct2, THEN spec,
        of "[0x80, 0x01, 0xff]", THEN conjunct2]
    from B show ?thesis by (simp only: len)
  qed
  ultimately show ?thesis using toy_cipher_wf b e d1 d2 by blast
qed

text \<open>
  C4. A fresh engine fed the chunks of a message one after the other returns the same
  tag as a fresh engine fed the whole message in one \<^verbatim>\<open>Write\<close>, wherever the chunk
  boundaries lie; both return a tag.
\<close>

theorem streaming_equivalence:
  assumes "cipher_wf c" and "BlockSize c = 8 \<or> BlockSize c = 16"
  shows "mac_chunks c chunks = mac_chunks c [concat chunks] \<and>
         (\<exists>tag. mac_chunks c chunks = Some (Inr (Inr tag)))"
proof -
  let ?m0 = "\<lparr>m_c = c, m_k1 = K1_of c, m_k2 = K2_of c, m_buf = [],
              m_x = zeros (BlockSize c), m_tmp = zeros (BlockSize c)\<rparr>"
  note N = NewWithCipher_wf [OF assms]
  note I = engine_inv_init [OF assms]
  from run_writes [OF assms(1) I, of chunks] obtain m1 where
    r1: "run ?m0 (map OpWrite chunks) = Some (Inr m1)" and i1: "engine_inv c m1"
    and k1: "m_k1 m1 = m_k1 ?m0" "m_k2 m1 = m_k2 ?m0"
    and x1: "m_x m1 = fst (drain_spec (encrypt c) (BlockSize c) (m_x ?m0) (m_buf ?m0 @ concat chunks))"
    and b1: "m_buf m1 = snd (drain_spec (encrypt c) (BlockSize c) (m_x ?m0) (m_buf ?m0 @ concat chunks))"
    by blast
  from run_writes [OF assms(1) I, of "[concat chunks]"] obtain m2 where
    r2: "run ?m0 (map OpWrite [concat chunks]) = Some (Inr m2)" and i2: "engine_inv c m2"
    and k2: "m_k1 m2 = m_k1 ?m0" "m_k2 m2 = m_k2 ?m0"
    and x2: "m_x m2 = fst (drain_spec (encrypt c) (BlockSize c) (m_x ?m0) (m_buf ?m0 @ concat [concat chunks]))"
    and b2: "m_buf m2 = snd (drain_spec (encrypt c) (BlockSize c) (m_x ?m0) (m_buf ?m0 @ concat [concat chunks]))"
    by blast
  have eq: "m_k1 m2 = m_k1 m1" "m_k2 m2 = m_k2 m1" "m_x m2 = m_x m1" "m_buf m2 = m_buf m1"
    by (simp_all add: k1 k2 x1 x2 b1 b2)
  note S1 = Sum_wf [OF assms(1) i1, of "[]"]
  note S2 = Sum_wf [OF assms(1) i2, of "[]"]
  have 1: "mac_chunks c chunks =
        Some (Inr (Inr (finalize_spec (encrypt c) (BlockSize c) (m_k1 m1) (m_k2 m1) (m_x m1) (m_buf m1))))"
    by (simp add: mac_chunks_def N r1 S1)
  have 2: "mac_chunks c [concat chunks] =
        Some (Inr (Inr (finalize_spec (encrypt c) (BlockSize c) (m_k1 m1) (m_k2 m1) (m_x m1) (m_buf m1))))"
    by (simp only: mac_chunks_def N r2 S2 eq sum.case option.case prod.case append_Nil)
  show ?thesis by (simp add: 1 2)
qed

theorem streaming_equivalence_witness:
  "cipher_wf toy_cipher \<and> (BlockSize toy_cipher = 8 \<or> BlockSize toy_cipher = 16) \<and>
   mac_chunks toy_cipher [[1, 2, 3, 4, 5, 6, 7, 8], [9, 10, 11, 12, 13, 14, 15, 16], [17]] =
     mac_chunks toy_cipher [concat [[1, 2, 3, 4, 5, 6, 7, 8], [9, 10, 11, 12, 13, 14, 15, 16], [17]]] \<and>
   mac_chunks toy_cipher [[1, 2, 3, 4, 5, 6, 7], [8, 9, 10, 11, 12, 13, 14, 15, 16, 17]] =
     mac_chunks toy_cipher [concat [[1, 2, 3, 4, 5, 6, 7], [8, 9, 10, 11, 12, 13, 14, 15, 16, 17]]] \<and>
   mac_chunks toy_cipher [[1, 2, 3, 4, 5, 6, 7, 8, 9], [], [10, 11, 12, 13, 14, 15, 16, 17]] =
     mac_chunks toy_cipher [concat [[1, 2, 3, 4, 5, 6, 7, 8, 9], [], [10, 11, 12, 13, 14, 15, 16, 17]]] \<and>
   mac_chunks toy_cipher [[1, 2, 3, 4, 5, 6, 7, 8, 9, 10, 11, 12, 13, 14, 15, 16, 17]] =
     Some (Inr (Inr [228, 246, 252, 254, 0, 254, 124, 213]))"
proof -
  have b: "BlockSize toy_cipher = 8 \<or> BlockSize toy_cipher = 16"
    by (simp add: toy_cipher_size)
  note T = streaming_equivalence [OF toy_cipher_wf b, THEN conjunct1]
  have v: "mac_chunks toy_cipher [[1, 2, 3, 4, 5, 6, 7, 8, 9, 10, 11, 12, 13, 14, 15, 16, 17]] =
     Some (Inr (Inr [228, 246, 252, 254, 0, 254, 124, 213]))"
    by code_simp
  show ?thesis
    by (intro conjI) (rule toy_cipher_wf, rule b, rule T, rule T, rule T, rule v)
qed

text \<open>
  C5. A cipher whose block size is neither 8 nor 16 makes \<^verbatim>\<open>NewWithCipher\<close> return the
  invalid-block-size error whatever its encryption function is, also one that panics on
  every call: the function is not called. For a well-formed cipher with 8- or 16-byte
  blocks construction succeeds. \<^verbatim>\<open>New\<close> returns the error of the cipher's constructor
  as it is.
\<close>

theorem construction_results:
  "(BlockSize c \<noteq> 8 \<and> BlockSize c \<noteq> 16 \<longrightarrow>
      (\<forall>f. NewWithCipher (c\<lparr>Encrypt := f\<rparr>) =
             Inr (Inl (ErrorString ''cmac: invalid blocksize'')))) \<and>
   (cipher_wf c \<and> (BlockSize c = 8 \<or> BlockSize c = 16) \<longrightarrow>
      (\<exists>m. NewWithCipher c = Inr (Inr m))) \<and>
   (NewCipher key = Inl err \<longrightarrow> New NewCipher key = Inr (Inl err)) \<and>
   (NewCipher key = Inr c \<longrightarrow> New NewCipher key = NewWithCipher c)"
proof (intro conjI impI allI)
  fix f assume "BlockSize c \<noteq> 8 \<and> BlockSize c \<noteq> 16"
  then show "NewWithCipher (c\<lparr>Encrypt := f\<rparr>) = Inr (Inl (ErrorString ''cmac: invalid blocksize''))"
    by (simp add: NewWithCipher_def)
next
  assume "cipher_wf c \<and> (BlockSize c = 8 \<or> BlockSize c = 16)"
  then show "\<exists>m. NewWithCipher c = Inr (Inr m)"
    using NewWithCipher_wf [of c] by blast
next
  assume "NewCipher key = Inl err"
  then show "New NewCipher key = Inr (Inl err)" by (simp add: New_def)
next
  assume "NewCipher key = Inr c"
  then show "New NewCipher key = NewWithCipher c" by (simp add: New_def)
qed

theorem construction_results_witness:
  "BlockSize (panicking_cipher 12) \<noteq> 8 \<and> BlockSize (panicking_cipher 12) \<noteq> 16 \<and>
   NewWithCipher (panicking_cipher 12) = Inr (Inl (ErrorString ''cmac: invalid blocksize'')) \<and>
   NewWithCipher (panicking_cipher 8) = Inl CipherPanic \<and>
   cipher_wf toy_cipher \<and> (BlockSize toy_cipher = 8 \<or> BlockSize toy_cipher = 16) \<and>
   (\<exists>m. NewWithCipher toy_cipher = Inr (Inr m)) \<and>
   New (\<lambda>k. Inl (KeySizeError (length k))) [1, 2, 3] = Inr (Inl (KeySizeError 3)) \<and>
   New (\<lambda>k. Inr toy_cipher) [1, 2, 3] = NewWithCipher toy_cipher"
proof -
  have b: "BlockSize toy_cipher = 8 \<or> BlockSize toy_cipher = 16"
    by (simp add: toy_cipher_size)
  have s: "BlockSize (panicking_cipher 12) \<noteq> 8 \<and> BlockSize (panicking_cipher 12) \<noteq> 16"
    by (simp add: panicking_cipher_def)
  have p: "(panicking_cipher 12)\<lparr>Encrypt := (\<lambda>b. Inl CipherPanic)\<rparr> = panicking_cipher 12"
    by (simp add: panicking_cipher_def)
  note R1 = construction_results [of "panicking_cipher 12" "\<lambda>k. Inl (KeySizeError (length k))"
      "[1, 2, 3]" "KeySizeError 3"]
  note R2 = construction_results [of toy_cipher "\<lambda>k. Inr toy_cipher" "[1, 2, 3]" "KeySizeError 3"]
  from R1 [THEN conjunct1, THEN mp, OF s, THEN spec, of "\<lambda>b. Inl CipherPanic"]
  have 1: "NewWithCipher (panicking_cipher 12) = Inr (Inl (ErrorString ''cmac: invalid blocksize''))"
    by (simp only: p)
  have 2: "NewWithCipher (panicking_cipher 8) = Inl CipherPanic"
    by (simp add: NewWithCipher_def newcmac_def gensubkeys_def panicking_cipher_def)
  have 3: "\<exists>m. NewWithCipher toy_cipher = Inr (Inr m)"
    by (rule R2 [THEN conjunct2, THEN conjunct1, THEN mp, OF conjI [OF toy_cipher_wf b]])
  from R1 have 4: "New (\<lambda>k. Inl (KeySizeError (length k))) [1, 2, 3] = Inr (Inl (KeySizeError 3))"
    by simp
  from R2 have 5: "New (\<lambda>k. Inr toy_cipher) [1, 2, 3] = NewWithCipher toy_cipher"
    by simp
  show ?thesis
    by (intro conjI) (rule s [THEN conjunct1], rule s [THEN conjunct2], rule 1, rule 2,
        rule toy_cipher_wf, rule b, rule 3, rule 4, rule 5)
qed

text \<open>
  C6. \<^verbatim>\<open>Reset\<close> sets the chaining value to the zero block and empties the buffer, and
  leaves the cipher and the subkeys as they are. An engine that is written \<open>msg1\<close>,
  reset and written \<open>msg2\<close> returns the tag that a fresh engine returns after
  \<open>msg2\<close> alone.
\<close>

theorem Reset_roundtrip:
  "m_x (Reset m) = zeros (BlockSize (m_c m)) \<and> m_buf (Reset m) = [] \<and>
   m_k1 (Reset m) = m_k1 m \<and> m_k2 (Reset m) = m_k2 m \<and> m_c (Reset m) = m_c m \<and>
   (cipher_wf c \<and> (BlockSize c = 8 \<or> BlockSize c = 16) \<longrightarrow>
      (\<exists>m0 ma mb tag.
          NewWithCipher c = Inr (Inr m0) \<and>
          run m0 [OpWrite msg1, OpReset, OpWrite msg2] = Some (Inr ma) \<and>
          run m0 [OpWrite msg2] = Some (Inr mb) \<and>
          Sum ma b = Inr (ma, b @ tag) \<and> Sum mb b = Inr (mb, b @ tag)))"
proof -
  have frame: "m_x (Reset m) = zeros (BlockSize (m_c m)) \<and> m_buf (Reset m) = [] \<and>
      m_k1 (Reset m) = m_k1 m \<and> m_k2 (Reset m) = m_k2 m \<and> m_c (Reset m) = m_c m"
    by (simp add: Reset_def)
  have round: "\<exists>m0 ma mb tag.
          NewWithCipher c = Inr (Inr m0) \<and>
          run m0 [OpWrite msg1, OpReset, OpWrite msg2] = Some (Inr ma) \<and>
          run m0 [OpWrite msg2] = Some (Inr mb) \<and>
          Sum ma b = Inr (ma, b @ tag) \<and> Sum mb b = Inr (mb, b @ tag)"
    if wf: "cipher_wf c" and bs: "BlockSize c = 8 \<or> BlockSize c = 16"
  proof -
    let ?m0 = "\<lparr>m_c = c, m_k1 = K1_of c, m_k2 = K2_of c, m_buf = [],
                m_x = zeros (BlockSize c), m_tmp = zeros (BlockSize c)\<rparr>"
    note N = NewWithCipher_wf [OF wf bs]
    note I = engine_inv_init [OF wf bs]
    from run_inv [OF wf I, of "[OpWrite msg1]"] obtain m1 where
      r1: "run ?m0 [OpWrite msg1] = Some (Inr m1)" and i1: "engine_inv c m1"
      and k1: "m_k1 m1 = m_k1 ?m0" "m_k2 m1 = m_k2 ?m0" by blast
    from i1 have c1: "m_c m1 = c" by (simp add: engine_inv_def)
    have ir: "engine_inv c (Reset m1)" by (rule engine_inv_Reset [OF i1])
    from run_writes [OF wf ir, of "[msg2]"] obtain ma where
      ra: "run (Reset m1) (map OpWrite [msg2]) = Some (Inr ma)" and ia: "engine_inv c ma"
      and ka: "m_k1 ma = m_k1 (Reset m1)" "m_k2 ma = m_k2 (Reset m1)"
      and xa: "m_x ma = fst (drain_spec (encrypt c) (BlockSize c) (m_x (Reset m1))
                               (m_buf (Reset m1) @ concat [msg2]))"
      and ba: "m_buf ma = snd (drain_spec (encrypt c) (BlockSize c) (m_x (Reset m1))
                               (m_buf (Reset m1) @ concat [msg2]))"
      by blast
    from run_writes [OF wf I, of "[msg2]"] obtain mb where
      rb: "run ?m0 (map OpWrite [msg2]) = Some (Inr mb)" and ib: "engine_inv c mb"
      and kb: "m_k1 mb = m_k1 ?m0" "m_k2 mb = m_k2 ?m0"
      and xb: "m_x mb = fst (drain_spec (encrypt c) (BlockSize c) (m_x ?m0)
                               (m_buf ?m0 @ concat [msg2]))"
      and bb: "m_buf mb = snd (drain_spec (encrypt c) (BlockSize c) (m_x ?m0)
                               (m_buf ?m0 @ concat [msg2]))"
      by blast
    have eq: "m_k1 mb = m_k1 ma" "m_k2 mb = m_k2 ma" "m_x mb = m_x ma" "m_buf mb = m_buf ma"
      by (simp_all add: k1 ka kb xa xb ba bb Reset_def c1)
    have "run ?m0 ([OpWrite msg1] @ OpReset # map OpWrite [msg2]) = Some (Inr ma)"
      unfolding run_append by (simp add: r1 ra del: run.simps) (simp add: ra [simplified])
    then have r: "run ?m0 [OpWrite msg1, OpReset, OpWrite msg2] = Some (Inr ma)" by simp
    from rb have r': "run ?m0 [OpWrite msg2] = Some (Inr mb)" by simp
    note Sa = Sum_wf [OF wf ia, of b]
    note Sb = Sum_wf [OF wf ib, of b, unfolded eq]
    show ?thesis
      unfolding N
      by (intro exI [of _ ?m0] exI [of _ ma] exI [of _ mb]
            exI [of _ "finalize_spec (encrypt c) (BlockSize c) (m_k1 ma) (m_k2 ma) (m_x ma) (m_buf ma)"]
            conjI refl r r' Sa Sb)
  qed
  from frame round show ?thesis by blast
qed

theorem Reset_roundtrip_witness:
  "cipher_wf toy_cipher \<and> (BlockSize toy_cipher = 8 \<or> BlockSize toy_cipher = 16) \<and>
   m_x (Reset toy_engine) = zeros (BlockSize (m_c toy_engine)) \<and> m_buf (Reset toy_engine) = [] \<and>
   m_k1 (Reset toy_engine) = m_k1 toy_engine \<and> m_k2 (Reset toy_engine) = m_k2 toy_engine \<and>
   (\<exists>m0 ma mb tag.
       NewWithCipher toy_cipher = Inr (Inr m0) \<and>
       run m0 [OpWrite [1, 2, 3, 4, 5, 6, 7, 8, 9, 10], OpReset, OpWrite [7, 7, 7]] = Some (Inr ma) \<and>
       run m0 [OpWrite [7, 7, 7]] = Some (Inr mb) \<and>
       Sum ma [] = Inr (ma, [] @ tag) \<and> Sum mb [] = Inr (mb, [] @ tag))"
proof -
  have b: "BlockSize toy_cipher = 8 \<or> BlockSize toy_cipher = 16"
    by (simp add: toy_cipher_size)
  note R = Reset_roundtrip [of toy_engine toy_cipher "[1, 2, 3, 4, 5, 6, 7, 8, 9, 10]" "[7, 7, 7]" "[]"]
  note R5 = R [THEN conjunct2, THEN conjunct2, THEN conjunct2, THEN conjunct2]
  show ?thesis
    by (intro conjI) (rule toy_cipher_wf, rule b, rule R [THEN conjunct1],
        rule R [THEN conjunct2, THEN conjunct1],
        rule R [THEN conjunct2, THEN conjunct2, THEN conjunct1],
        rule R [THEN conjunct2, THEN conjunct2, THEN conjunct2, THEN conjunct1],
        rule R5 [THEN conjunct2, THEN mp, OF conjI [OF toy_cipher_wf b]])
qed

text \<open>
  C7. \<^verbatim>\<open>Sum\<close> leaves the engine as it found it: the subkeys, the chaining value and the
  pending buffer are unchanged, and a further \<^verbatim>\<open>Sum\<close>, whatever prefix it is given,
  returns the same tag.
\<close>

theorem Sum_frame:
  assumes "Sum m b = Inr (m', t)"
  shows "m' = m \<and> m_k1 m' = m_k1 m \<and> m_k2 m' = m_k2 m \<and> m_x m' = m_x m \<and>
         m_buf m' = m_buf m \<and>
         (\<exists>tag. t = b @ tag \<and> (\<forall>b'. Sum m' b' = Inr (m', b' @ tag)))"
proof (cases "Sum_last m")
  case (Inl e)
  with assms show ?thesis by (simp add: Sum_def)
next
  case 1: (Inr lastb)
  show ?thesis
  proof (cases "xor_assign_loop [0..<length lastb] lastb (m_x m)")
    case (Inl e)
    with assms 1 show ?thesis by (simp add: Sum_def)
  next
    case 2: (Inr lastb')
    show ?thesis
    proof (cases "Encrypt (m_c m) lastb'")
      case (Inl e)
      with assms 1 2 show ?thesis by (simp add: Sum_def)
    next
      case 3: (Inr tag)
      from assms have 4: "m' = m" and 5: "t = b @ tag"
        by (simp_all add: Sum_def 1 2 3)
      have "Sum m b' = Inr (m, b' @ tag)" for b'
        by (simp add: Sum_def 1 2 3)
      with 4 5 show ?thesis by simp
    qed
  qed
qed

theorem Sum_frame_witness:
  "Sum toy_engine [0, 1] = Inr (toy_engine, [0, 1, 113, 102, 99, 100, 97, 98, 239, 103]) \<and>
   m_x toy_engine = m_x toy_engine \<and>
   (\<exists>tag. [0, 1, 113, 102, 99, 100, 97, 98, 239, 103] = [0, 1] @ tag \<and>
      (\<forall>b'. Sum toy_engine b' = Inr (toy_engine, b' @ tag)))"
proof -
  have s: "Sum toy_engine [0, 1] = Inr (toy_engine, [0, 1, 113, 102, 99, 100, 97, 98, 239, 103])"
    by (simp add: toy_engine_Sum)
  from Sum_frame [OF s] s show ?thesis by blast
qed

text \<open>
  C8. In every state reached from construction by any sequence of \<^verbatim>\<open>Write\<close>, \<^verbatim>\<open>Sum\<close>
  and \<^verbatim>\<open>Reset\<close> calls, the subkeys and the chaining value have the length of a block and
  the pending buffer has at most that length. Construction and every such sequence
  return without a panic for a well-formed cipher with 8- or 16-byte blocks.
\<close>

theorem lengths_invariant:
  assumes "cipher_wf c" and "BlockSize c = 8 \<or> BlockSize c = 16"
  shows "\<exists>m0 m. NewWithCipher c = Inr (Inr m0) \<and> run m0 ops = Some (Inr m) \<and>
           length (m_k1 m) = BlockSize (m_c m) \<and> length (m_k2 m) = BlockSize (m_c m) \<and>
           length (m_x m) = BlockSize (m_c m) \<and> length (m_buf m) \<le> BlockSize (m_c m) \<and>
           BlockSize (m_c m) = BlockSize c"
proof -
  note N = NewWithCipher_wf [OF assms]
  from run_inv [OF assms(1) engine_inv_init [OF assms], of ops]
  obtain m where "run \<lparr>m_c = c, m_k1 = K1_of c, m_k2 = K2_of c, m_buf = [],
                     m_x = zeros (BlockSize c), m_tmp = zeros (BlockSize c)\<rparr> ops = Some (Inr m)"
    and "engine_inv c m" by blast
  then show ?thesis
    unfolding N by (intro exI conjI) (auto simp: engine_inv_def)
qed

theorem lengths_invariant_witness:
  "cipher_wf toy_cipher \<and> (BlockSize toy_cipher = 8 \<or> BlockSize toy_cipher = 16) \<and>
   (\<exists>m0 m. NewWithCipher toy_cipher = Inr (Inr m0) \<and>
      run m0 [OpWrite [1, 2, 3], OpSum [], OpWrite [4, 5, 6, 7, 8, 9, 10, 11, 12, 13, 14, 15, 16],
              OpReset, OpWrite [1, 2, 3, 4, 5, 6, 7, 8]] = Some (Inr m) \<and>
      length (m_k1 m) = BlockSize (m_c m) \<and> length (m_k2 m) = BlockSize (m_c m) \<and>
      length (m_x m) = BlockSize (m_c m) \<and> length (m_buf m) \<le> BlockSize (m_c m) \<and>
      BlockSize (m_c m) = BlockSize toy_cipher)"
  using lengths_invariant [of toy_cipher
      "[OpWrite [1, 2, 3], OpSum [], OpWrite [4, 5, 6, 7, 8, 9, 10, 11, 12, 13, 14, 15, 16],
        OpReset, OpWrite [1, 2, 3, 4, 5, 6, 7, 8]]"]
    toy_cipher_wf toy_cipher_size
  by simp

text \<open>
  C9. The cursor-based engine (a fixed buffer of one block with a cursor, the full
  buffer recognised at \<^verbatim>\<open>Sum\<close> by the cursor being the block size) and the append-based
  engine return the same result for every message and every chunking into \<^verbatim>\<open>Write\<close>
  calls; with 8- or 16-byte blocks that result is a tag.
\<close>

theorem cursor_equivalence:
  assumes "cipher_wf c"
  shows "mac_chunks_cursor c chunks = mac_chunks c chunks \<and>
         (BlockSize c = 8 \<or> BlockSize c = 16 \<longrightarrow>
            (\<exists>tag. mac_chunks_cursor c chunks = Some (Inr (Inr tag))))"
proof (cases "BlockSize c = 8 \<or> BlockSize c = 16")
  case False
  then show ?thesis
    by (simp add: mac_chunks_cursor_def mac_chunks_def NewWithCipher_def NewWithCipher_cursor_def)
next
  case bs: True
  let ?m0 = "\<lparr>m_c = c, m_k1 = K1_of c, m_k2 = K2_of c, m_buf = [],
              m_x = zeros (BlockSize c), m_tmp = zeros (BlockSize c)\<rparr>"
  let ?s0 = "\<lparr>s_c = c, s_k1 = K1_of c, s_k2 = K2_of c, s_buf = zeros (BlockSize c),
              s_x = zeros (BlockSize c), s_scratch = [], s_cursor = 0\<rparr>"
  note Na = NewWithCipher_wf [OF assms bs]
  note Ns = NewWithCipher_cursor_wf [OF assms bs]
  from run_writes [OF assms engine_inv_init [OF assms bs], of chunks] obtain m where
    rm: "run ?m0 (map OpWrite chunks) = Some (Inr m)" and im: "engine_inv c m"
    and km: "m_k1 m = m_k1 ?m0" "m_k2 m = m_k2 ?m0"
    and xm: "m_x m = fst (drain_spec (encrypt c) (BlockSize c) (m_x ?m0) (m_buf ?m0 @ concat chunks))"
    and bm: "m_buf m = snd (drain_spec (encrypt c) (BlockSize c) (m_x ?m0) (m_buf ?m0 @ concat chunks))"
    by blast
  from write_all_cursor_wf [OF assms cursor_inv_init [OF assms bs], of chunks] obtain s where
    rs: "write_all_cursor ?s0 chunks = Some (Inr s)" and ics: "cursor_inv c s"
    and ks: "s_k1 s = s_k1 ?s0" "s_k2 s = s_k2 ?s0"
    and xs: "s_x s = fst (drain_spec (encrypt c) (BlockSize c) (s_x ?s0)
                            (take (s_cursor ?s0) (s_buf ?s0) @ concat chunks))"
    and bs': "take (s_cursor s) (s_buf s) =
                snd (drain_spec (encrypt c) (BlockSize c) (s_x ?s0)
                       (take (s_cursor ?s0) (s_buf ?s0) @ concat chunks))"
    by blast
  have eq: "s_k1 s = m_k1 m" "s_k2 s = m_k2 m" "s_x s = m_x m"
    "take (s_cursor s) (s_buf s) = m_buf m"
    by (simp_all add: km ks xm xs bm bs')
  note Sm = Sum_wf [OF assms im, of "[]"]
  note Ss = Sum_cursor_wf [OF assms ics, of "[]", unfolded eq]
  have 1: "mac_chunks c chunks =
        Some (Inr (Inr (finalize_spec (encrypt c) (BlockSize c) (m_k1 m) (m_k2 m) (m_x m) (m_buf m))))"
    by (simp add: mac_chunks_def Na rm Sm)
  have 2: "mac_chunks_cursor c chunks =
        Some (Inr (Inr (finalize_spec (encrypt c) (BlockSize c) (m_k1 m) (m_k2 m) (m_x m) (m_buf m))))"
    by (simp add: mac_chunks_cursor_def Ns rs Ss)
  show ?thesis by (simp add: 1 2)
qed

theorem cursor_equivalence_witness:
  "cipher_wf toy_cipher \<and>
   mac_chunks_cursor toy_cipher [[1, 2, 3, 4, 5, 6, 7, 8], [9, 10, 11, 12, 13, 14, 15, 16]] =
     mac_chunks toy_cipher [[1, 2, 3, 4, 5, 6, 7, 8], [9, 10, 11, 12, 13, 14, 15, 16]] \<and>
   mac_chunks_cursor toy_cipher [[1, 2, 3, 4, 5, 6, 7], [8, 9], [], [10, 11, 12, 13, 14, 15, 16, 17]] =
     mac_chunks toy_cipher [[1, 2, 3, 4, 5, 6, 7], [8, 9], [], [10, 11, 12, 13, 14, 15, 16, 17]] \<and>
   mac_chunks_cursor toy_cipher [] = mac_chunks toy_cipher [] \<and>
   mac_chunks_cursor toy_cipher [[1, 2, 3, 4, 5, 6, 7, 8], [9, 10, 11, 12, 13, 14, 15, 16]] =
     Some (Inr (Inr [76, 80, 74, 76, 74, 80, 66, 68])) \<and>
   mac_chunks toy_cipher [[1, 2, 3, 4, 5, 6, 7, 8], [9, 10, 11, 12, 13, 14, 15, 16]] =
     Some (Inr (Inr [76, 80, 74, 76, 74, 80, 66, 68]))"
proof -
  note T = cursor_equivalence [OF toy_cipher_wf, THEN conjunct1]
  have v: "mac_chunks_cursor toy_cipher [[1, 2, 3, 4, 5, 6, 7, 8], [9, 10, 11, 12, 13, 14, 15, 16]] =
     Some (Inr (Inr [76, 80, 74, 76, 74, 80, 66, 68]))"
    by code_simp
  have w: "mac_chunks toy_cipher [[1, 2, 3, 4, 5, 6, 7, 8], [9, 10, 11, 12, 13, 14, 15, 16]] =
     Some (Inr (Inr [76, 80, 74, 76, 74, 80, 66, 68]))"
    by code_simp
  show ?thesis
    by (intro conjI) (rule toy_cipher_wf, rule T, rule T, rule T, rule v, rule w)
qed

text \<open>
  C10. In every reachable state, when the K1 guard of \<^verbatim>\<open>Sum\<close> fails the pending buffer
  is strictly shorter than \<^verbatim>\<open>last\<close>, so the write of \<open>0x80\<close> at index
  \<^verbatim>\<open>len(m.buf)\<close> is in bounds; \<^verbatim>\<open>Sum\<close> returns without a panic.
\<close>

theorem Sum_pad_in_bounds:
  assumes "cipher_wf c" and "BlockSize c = 8 \<or> BlockSize c = 16"
  shows "\<exists>m0 m. NewWithCipher c = Inr (Inr m0) \<and> run m0 ops = Some (Inr m) \<and>
           (\<not> (0 < length (m_buf m) \<and> length (m_buf m) mod BlockSize (m_c m) = 0) \<longrightarrow>
              length (m_buf m) < length (fst (copy_go (zeros (BlockSize (m_c m))) (m_buf m)))) \<and>
           Sum_last m \<noteq> Inl IndexOutOfRange \<and>
           (\<exists>t. Sum m b = Inr (m, t))"
proof -
  let ?m0 = "\<lparr>m_c = c, m_k1 = K1_of c, m_k2 = K2_of c, m_buf = [],
              m_x = zeros (BlockSize c), m_tmp = zeros (BlockSize c)\<rparr>"
  note N = NewWithCipher_wf [OF assms]
  from run_inv [OF assms(1) engine_inv_init [OF assms], of ops] obtain m where
    m: "run ?m0 ops = Some (Inr m)" and inv: "engine_inv c m" by blast
  from inv have c: "m_c m = c" and lb: "length (m_buf m) \<le> BlockSize c" and pos: "0 < BlockSize c"
    by (auto simp: engine_inv_def)
  have "length (m_buf m) < BlockSize c"
    if "\<not> (0 < length (m_buf m) \<and> length (m_buf m) mod BlockSize c = 0)"
  proof (rule ccontr)
    assume "\<not> length (m_buf m) < BlockSize c"
    with lb have "length (m_buf m) = BlockSize c" by simp
    with that pos show False by simp
  qed
  moreover have "length (fst (copy_go (zeros (BlockSize c)) (m_buf m))) = BlockSize c"
    using lb by (simp add: copy_go_def Let_def zeros_def)
  moreover have "Sum_last m \<noteq> Inl IndexOutOfRange"
    by (simp add: Sum_last_wf [OF inv])
  moreover have "\<exists>t. Sum m b = Inr (m, t)"
    by (simp add: Sum_wf [OF assms(1) inv])
  ultimately show ?thesis unfolding N using m c by auto
qed

theorem Sum_pad_in_bounds_witness:
  "cipher_wf toy_cipher \<and> (BlockSize toy_cipher = 8 \<or> BlockSize toy_cipher = 16) \<and>
   (\<exists>m0 m. NewWithCipher toy_cipher = Inr (Inr m0) \<and>
      run m0 [OpWrite [1, 2, 3, 4, 5, 6, 7, 8], OpWrite [9, 10, 11]] = Some (Inr m) \<and>
      length (m_buf m) < length (fst (copy_go (zeros (BlockSize (m_c m))) (m_buf m))) \<and>
      Sum_last m \<noteq> Inl IndexOutOfRange \<and>
      (\<exists>t. Sum m [] = Inr (m, t)))"
proof -
  from Sum_pad_in_bounds [OF toy_cipher_wf, of "[OpWrite [1, 2, 3, 4, 5, 6, 7, 8], OpWrite [9, 10, 11]]" "[]"]
  obtain m0 m where
    1: "NewWithCipher toy_cipher = Inr (Inr m0)"
    and 2: "run m0 [OpWrite [1, 2, 3, 4, 5, 6, 7, 8], OpWrite [9, 10, 11]] = Some (Inr m)"
    and 3: "\<not> (0 < length (m_buf m) \<and> length (m_buf m) mod BlockSize (m_c m) = 0) \<longrightarrow>
              length (m_buf m) < length (fst (copy_go (zeros (BlockSize (m_c m))) (m_buf m)))"
    and 4: "Sum_last m \<noteq> Inl IndexOutOfRange" and 5: "\<exists>t. Sum m [] = Inr (m, t)"
    by (auto simp: toy_cipher_size)
  have "(case NewWithCipher toy_cipher of Inr (Inr m0) \<Rightarrow>
          (case run m0 [OpWrite [1, 2, 3, 4, 5, 6, 7, 8], OpWrite [9, 10, 11]] of
             Some (Inr m) \<Rightarrow> length (m_buf m) = 3 \<and> BlockSize (m_c m) = 8))"
    by code_simp
  with 1 2 have "length (m_buf m) = 3" "BlockSize (m_c m) = 8" by simp_all
  with 3 have "length (m_buf m) < length (fst (copy_go (zeros (BlockSize (m_c m))) (m_buf m)))"
    by simp
  with 1 2 4 5 toy_cipher_wf toy_cipher_size show ?thesis by blast
qed

end
